theory Spec2Isabelle
  imports Main "HOL-Library.Word"
begin

section \<open>The TCP echo server sketch: data model\<close>

text \<open>
  The sketch keeps its connected clients in a forward linked list of heap nodes
  (\<^verbatim>\<open>struct ClientList\<close>), reached from the global \<^verbatim>\<open>clients\<close>, with their number in the
  global \<^verbatim>\<open>clientCount\<close>.  Node storage comes from \<^verbatim>\<open>malloc\<close> and goes back with
  \<^verbatim>\<open>free\<close>, and \<^verbatim>\<open>removeClient\<close> is handed raw node pointers, so the model keeps an
  explicit store: a partial map from addresses to nodes.  A \<^verbatim>\<open>ClientList*\<close> is an
  optional address, \<open>None\<close> being \<^verbatim>\<open>NULL\<close>.
\<close>

type_synonym byte = "8 word"

type_synonym ptr = "nat option"

text \<open>
  Modelled from the spec: the class \<^verbatim>\<open>Adafruit_CC3000_Client\<close> of the library, whose
  code is not among the sources.  The spec describes it as a stream object bound to a
  socket handle, "exposing byte-available count, byte read, byte write, and a liveness
  check", whose buffer "is itself ordered", and a failed write as "zero bytes written".
  \<open>handle\<close> is the socket the session is bound to; \<open>rx\<close> holds the bytes
  received and not yet read, oldest first; \<open>tx\<close> the bytes written back so far;
  \<open>live\<close> what the liveness check reports; \<open>wok\<close> scripts the outcomes of the
  write calls to come (\<open>False\<close> is a failing write, an exhausted script means
  success).  During a tick a session changes only through the calls the sketch makes
  on it; what the network does to it happens between ticks (\<open>network\<close> below).
\<close>

record Adafruit_CC3000_Client =
  handle :: int
  rx :: "byte list"
  tx :: "byte list"
  live :: bool
  wok :: "bool list"

text \<open>
  Modelled from the spec: the constructor and the four member functions of that class
  which the sketch calls.  \<^verbatim>\<open>available\<close> reports the number of waiting bytes, \<^verbatim>\<open>read\<close>
  takes the oldest one, \<^verbatim>\<open>write\<close> returns the number of bytes written (1, or 0 when it
  fails and nothing is sent), \<^verbatim>\<open>connected\<close> is the liveness check.
\<close>

definition new_client :: "int \<Rightarrow> Adafruit_CC3000_Client" where
  "new_client sock = \<lparr>handle = sock, rx = [], tx = [], live = True, wok = []\<rparr>"

definition available :: "Adafruit_CC3000_Client \<Rightarrow> nat" where
  "available c = length (rx c)"

definition read :: "Adafruit_CC3000_Client \<Rightarrow> byte \<times> Adafruit_CC3000_Client" where
  "read c = (case rx c of [] \<Rightarrow> (0, c) | b # bs \<Rightarrow> (b, c\<lparr>rx := bs\<rparr>))"

definition "write" :: "byte \<Rightarrow> Adafruit_CC3000_Client \<Rightarrow> nat \<times> Adafruit_CC3000_Client" where
  "write ch c =
     (case wok c of
        [] \<Rightarrow> (1, c\<lparr>tx := tx c @ [ch]\<rparr>)
      | ok # oks \<Rightarrow>
          if ok then (1, c\<lparr>tx := tx c @ [ch], wok := oks\<rparr>)
          else (0, c\<lparr>wok := oks\<rparr>))"

definition connected :: "Adafruit_CC3000_Client \<Rightarrow> bool" where
  "connected c = live c"

record ClientList =
  socket :: int
  client :: Adafruit_CC3000_Client
  "next" :: ptr

text \<open>
  Every call that \<^verbatim>\<open>echoLoop\<close> and the two registry operations make to a collaborator
  is recorded, in program order, in a trace that is part of the state: the session calls with the address of the node whose
  session is used and the value returned, \<^verbatim>\<open>accept\<close> with the listening socket and its
  result, \<^verbatim>\<open>malloc\<close> with its result, \<^verbatim>\<open>free\<close> with its argument, and the lines sent
  to the serial console.
\<close>

datatype serial_item =
  Print string | PrintInt int | Println string | PrintlnInt int

datatype event =
  Available nat nat
| Read nat byte
| Write nat byte nat
| Connected nat bool
| Accept int int
| Malloc ptr
| Free nat
| Serial serial_item

text \<open>
  The globals of the sketch, the store and the trace.  \<^verbatim>\<open>clientCount\<close> is a C \<^verbatim>\<open>int\<close>.
  It moves by one at a time, and in every state the operations reach from the empty
  registry it is the number of nodes of the chain (\<open>apply_ops_registry\<close>,
  \<open>run_invariant\<close>), which are allocated and distinct; the memory of the board holds
  far fewer nodes than an \<^verbatim>\<open>int\<close> can count, so the model uses the integers without
  wrap-around.
\<close>

record state =
  heap :: "nat \<rightharpoonup> ClientList"
  listenSocket :: int
  clients :: ptr
  clientCount :: int
  trace :: "event list"

definition emit :: "event list \<Rightarrow> state \<Rightarrow> state" where
  "emit es s = s\<lparr>trace := trace s @ es\<rparr>"

text \<open>
  Reading through a pointer that is \<^verbatim>\<open>NULL\<close> or does not point to an allocated node
  has no defined behaviour in C; the model makes it an error value.  A loop that may
  not end returns \<open>None\<close>.
\<close>

datatype fault = BadPointer

type_synonym 'a result = "(fault + 'a) option"

definition MAX_CLIENTS :: int where
  "MAX_CLIENTS = 3"

text \<open>
  \<^verbatim>\<open>malloc\<close> belongs to the C library.  Its contract is all the sketch relies on: it
  returns \<^verbatim>\<open>NULL\<close> or the address of storage that is not in use.  The first argument is
  the allocator's choice, supplied from outside; a choice that names storage in use
  cannot be what \<^verbatim>\<open>malloc\<close> returns and counts as exhaustion.
\<close>

definition malloc :: "ptr \<Rightarrow> (nat \<rightharpoonup> ClientList) \<Rightarrow> ptr" where
  "malloc m h = (case m of None \<Rightarrow> None | Some a \<Rightarrow> if h a = None then Some a else None)"

section \<open>The registry operations\<close>

text \<open>
  \<^verbatim>\<open>addNewClient(socket)\<close>, lines 124 to 142.  \<open>m\<close> is the allocator's choice for the
  one \<^verbatim>\<open>malloc\<close> call.
\<close>

definition addNewClient :: "int \<Rightarrow> ptr \<Rightarrow> state \<Rightarrow> state" where
  "addNewClient sock m s =
     (let r = malloc m (heap s);
          s1 = emit [Malloc r] s
      in case r of
           None \<Rightarrow>
             emit [Serial (Println ''Error! Couldn't allocate space to store a new client.'')] s1
         | Some a \<Rightarrow>
             s1\<lparr>heap := (heap s1)(a \<mapsto> \<lparr>socket = sock, client = new_client sock,
                                       next = clients s1\<rparr>),
                clients := Some a,
                clientCount := clientCount s1 + 1\<rparr>)"

text \<open>
  The search loop of \<^verbatim>\<open>removeClient\<close>, lines 159 to 162:
  \<^verbatim>\<open>while (i != NULL && i->next != client) i = i->next;\<close>
  It returns the final value of \<^verbatim>\<open>i\<close>.
\<close>

partial_function (option) find_before :: "(nat \<rightharpoonup> ClientList) \<Rightarrow> ptr \<Rightarrow> ptr \<Rightarrow> ptr result" where
  "find_before h cl i =
     (case i of
        None \<Rightarrow> Some (Inr None)
      | Some a \<Rightarrow>
          (case h a of
             None \<Rightarrow> Some (Inl BadPointer)
           | Some n \<Rightarrow>
               if next n \<noteq> cl then find_before h cl (next n) else Some (Inr (Some a))))"

declare find_before.simps [code]

text \<open>
  The common tail of \<^verbatim>\<open>removeClient\<close>, lines 172 to 175: free the node, decrement the
  count.
\<close>

definition release :: "nat \<Rightarrow> state \<Rightarrow> state" where
  "release c s = (emit [Free c] s)\<lparr>heap := (heap s)(c := None), clientCount := clientCount s - 1\<rparr>"

text \<open>\<^verbatim>\<open>removeClient(client)\<close>, lines 145 to 176.\<close>

definition removeClient :: "ptr \<Rightarrow> state \<Rightarrow> state result" where
  "removeClient cl s =
     (case cl of
        None \<Rightarrow> Some (Inr s)
      | Some c \<Rightarrow>
          if clients s = cl then
            (case heap s c of
               None \<Rightarrow> Some (Inl BadPointer)
             | Some n \<Rightarrow> Some (Inr (release c (s\<lparr>clients := next n\<rparr>))))
          else
            (case find_before (heap s) cl (clients s) of
               None \<Rightarrow> None
             | Some (Inl f) \<Rightarrow> Some (Inl f)
             | Some (Inr None) \<Rightarrow> Some (Inr s)
             | Some (Inr (Some p)) \<Rightarrow>
                 (case heap s p of
                    None \<Rightarrow> Some (Inl BadPointer)
                  | Some pn \<Rightarrow>
                      (case heap s c of
                         None \<Rightarrow> Some (Inl BadPointer)
                       | Some n \<Rightarrow>
                           Some (Inr (release c
                             (s\<lparr>heap := (heap s)(p \<mapsto> pn\<lparr>next := next n\<rparr>)\<rparr>)))))))"

section \<open>The server loop\<close>

text \<open>
  The drain loop of \<^verbatim>\<open>echoLoop\<close>, lines 241 to 247, on the session of the node at
  address \<open>a\<close>; \<open>t\<close> accumulates the calls made.
\<close>

function drain :: "nat \<Rightarrow> Adafruit_CC3000_Client \<Rightarrow> event list \<Rightarrow> Adafruit_CC3000_Client \<times> event list" where
  "drain a c t =
     (let k = available c in
      if k > 0 then
        (let (ch, c1) = read c;
             (w, c2) = write ch c1;
             t1 = t @ [Available a k, Read a ch, Write a ch w];
             t2 = (if w = 0 then t1 @ [Serial (Println ''Error writing character to client!'')]
                   else t1)
         in drain a c2 t2)
      else (c, t @ [Available a k]))"
  by pat_completeness auto
termination
  by (relation "measure (\<lambda>(a, c, t). length (rx c))")
     (auto simp: available_def read_def write_def split: list.splits if_splits)

text \<open>
  The pass over the connected clients, lines 234 to 259.  \<open>i\<close> is the loop variable.
\<close>

partial_function (option) echoLoop_clients :: "ptr \<Rightarrow> state \<Rightarrow> state result" where
  "echoLoop_clients i s =
     (case i of
        None \<Rightarrow> Some (Inr s)
      | Some a \<Rightarrow>
          (case heap s a of
             None \<Rightarrow> Some (Inl BadPointer)
           | Some n \<Rightarrow>
               (let nxt = next n;
                    dr = drain a (client n) [];
                    c = fst dr;
                    s1 = emit (snd dr) (s\<lparr>heap := (heap s)(a \<mapsto> n\<lparr>client := c\<rparr>)\<rparr>);
                    b = connected c;
                    s2 = emit [Connected a b] s1
                in if \<not> b then
                     (case removeClient i
                             (emit [Serial (Print ''Client on socket ''),
                                    Serial (PrintInt (socket n)),
                                    Serial (Println '' disconnected.'')] s2) of
                        None \<Rightarrow> None
                      | Some (Inl f) \<Rightarrow> Some (Inl f)
                      | Some (Inr s3) \<Rightarrow> echoLoop_clients nxt s3)
                   else echoLoop_clients nxt s2)))"

declare echoLoop_clients.simps [code]

text \<open>
  The accept step, lines 260 to 276.  \<open>newSocket\<close> is what \<^verbatim>\<open>accept\<close> returns if it
  is called, \<open>m\<close> the allocator's choice if \<^verbatim>\<open>addNewClient\<close> is called.
\<close>

definition echoLoop_accept :: "int \<Rightarrow> ptr \<Rightarrow> state \<Rightarrow> state" where
  "echoLoop_accept newSocket m s =
     (if clientCount s < MAX_CLIENTS then
        (let s1 = emit [Accept (listenSocket s) newSocket] s in
         if newSocket > -1 then
           addNewClient newSocket m
             (emit [Serial (Print ''New client connected on socket ''),
                    Serial (PrintlnInt newSocket)] s1)
         else s1)
      else s)"

text \<open>\<^verbatim>\<open>echoLoop()\<close>, lines 232 to 277: one tick of the server.\<close>

definition echoLoop :: "int \<Rightarrow> ptr \<Rightarrow> state \<Rightarrow> state result" where
  "echoLoop newSocket m s =
     (case echoLoop_clients (clients s) s of
        None \<Rightarrow> None
      | Some (Inl f) \<Rightarrow> Some (Inl f)
      | Some (Inr s1) \<Rightarrow> Some (Inr (echoLoop_accept newSocket m s1)))"

text \<open>
  \<^verbatim>\<open>echoSetup()\<close>, lines 180 to 228.  The arguments are the values returned by
  \<^verbatim>\<open>netapp_timeout_values\<close>, \<^verbatim>\<open>socket\<close>, \<^verbatim>\<open>setsockopt\<close>, \<^verbatim>\<open>bind\<close> and \<^verbatim>\<open>listen\<close>.
  After a failed call the sketch prints a message and spins in \<^verbatim>\<open>while(1);\<close>: it never
  returns, which is \<open>None\<close>.  Of the calls of a successful setup only the final line
  on the serial console is put in the trace.
\<close>

definition echoSetup :: "int \<Rightarrow> int \<Rightarrow> int \<Rightarrow> int \<Rightarrow> int \<Rightarrow> state \<Rightarrow> state option" where
  "echoSetup timeouts sock sockopt bound listening s =
     (if timeouts \<noteq> 0 then None
      else
        (let s1 = s\<lparr>listenSocket := sock\<rparr> in
         if listenSocket s1 < 0 then None
         else if sockopt < 0 then None
         else if bound < 0 then None
         else if listening < 0 then None
         else Some (emit [Serial (Println ''Listening for connections...'')]
                      (s1\<lparr>clients := None, clientCount := 0\<rparr>))))"

text \<open>
  Between two ticks the network acts on the sessions: bytes arrive, peers close, writes
  start or stop failing.  It touches nothing but the \<^verbatim>\<open>client\<close> member of the nodes.
\<close>

definition network :: "(nat \<Rightarrow> Adafruit_CC3000_Client \<Rightarrow> Adafruit_CC3000_Client) \<Rightarrow> state \<Rightarrow> state" where
  "network f s = s\<lparr>heap := (\<lambda>a. map_option (\<lambda>n. n\<lparr>client := f a (client n)\<rparr>) (heap s a))\<rparr>"

text \<open>
  \<^verbatim>\<open>loop()\<close>, lines 316 to 320, calls \<^verbatim>\<open>echoLoop\<close> again and again.  A run of the
  server is a list of steps: a tick with its two outside inputs, or the network acting.
\<close>

datatype step =
  Tick int ptr
| Network "nat \<Rightarrow> Adafruit_CC3000_Client \<Rightarrow> Adafruit_CC3000_Client"

fun run :: "step list \<Rightarrow> state \<Rightarrow> state result" where
  "run [] s = Some (Inr s)"
| "run (Tick newSocket m # steps) s =
     (case echoLoop newSocket m s of
        None \<Rightarrow> None
      | Some (Inl f) \<Rightarrow> Some (Inl f)
      | Some (Inr s') \<Rightarrow> run steps s')"
| "run (Network f # steps) s = run steps (network f s)"

text \<open>Sequences of calls of the two registry operations.\<close>

datatype registry_op =
  Insert int ptr
| Remove ptr

fun apply_ops :: "registry_op list \<Rightarrow> state \<Rightarrow> state result" where
  "apply_ops [] s = Some (Inr s)"
| "apply_ops (Insert sock m # ops) s = apply_ops ops (addNewClient sock m s)"
| "apply_ops (Remove cl # ops) s =
     (case removeClient cl s of
        None \<Rightarrow> None
      | Some (Inl f) \<Rightarrow> Some (Inl f)
      | Some (Inr s') \<Rightarrow> apply_ops ops s')"

section \<open>Specification vocabulary\<close>

text \<open>
  \<open>chain h p as\<close>: following \<^verbatim>\<open>next\<close> from the pointer \<open>p\<close> in the store \<open>h\<close> visits
  the nodes at the addresses \<open>as\<close>, in this order, and then reaches \<^verbatim>\<open>NULL\<close>.  This
  is the sequence of values the loop variable of
  \<^verbatim>\<open>for (i = p; i != NULL; i = i->next)\<close> takes.
\<close>

fun chain :: "(nat \<rightharpoonup> ClientList) \<Rightarrow> ptr \<Rightarrow> nat list \<Rightarrow> bool" where
  "chain h p [] = (p = None)"
| "chain h p (a # as) =
     (p = Some a \<and> (case h a of None \<Rightarrow> False | Some n \<Rightarrow> chain h (next n) as))"

text \<open>Classifying trace events.\<close>

fun session_call :: "nat \<Rightarrow> event \<Rightarrow> bool" where
  "session_call a (Available x k) = (x = a)"
| "session_call a (Read x b) = (x = a)"
| "session_call a (Write x b w) = (x = a)"
| "session_call a (Connected x b) = (x = a)"
| "session_call a e = False"

fun liveness_check :: "nat \<Rightarrow> event \<Rightarrow> bool" where
  "liveness_check a (Connected x b) = (x = a)"
| "liveness_check a e = False"

fun any_session_call :: "event \<Rightarrow> bool" where
  "any_session_call (Available x k) = True"
| "any_session_call (Read x b) = True"
| "any_session_call (Write x b w) = True"
| "any_session_call (Connected x b) = True"
| "any_session_call e = False"

fun accept_call :: "event \<Rightarrow> bool" where
  "accept_call (Accept l r) = True"
| "accept_call e = False"

fun malloc_call :: "event \<Rightarrow> bool" where
  "malloc_call (Malloc r) = True"
| "malloc_call e = False"

fun failed_write :: "event \<Rightarrow> bool" where
  "failed_write (Write x b w) = (w = 0)"
| "failed_write e = False"

fun written :: "event list \<Rightarrow> (nat \<times> byte) list" where
  "written [] = []"
| "written (Write x b w # es) = (if w = 0 then written es else (x, b) # written es)"
| "written (e # es) = written es"

text \<open>
  The calls of one round of the drain loop: \<open>k\<close> bytes reported, byte \<open>b\<close> read,
  \<^verbatim>\<open>write\<close> returning \<open>w\<close>.
\<close>

definition step_events :: "nat \<Rightarrow> byte \<Rightarrow> nat \<Rightarrow> nat \<Rightarrow> event list" where
  "step_events a b k w =
     [Available a k, Read a b, Write a b w] @
     (if w = 0 then [Serial (Println ''Error writing character to client!'')] else [])"

text \<open>
  What the pass does for the node at \<open>a\<close> holding \<open>n\<close>: the session after the drain,
  whether the node stays, and the calls made for it.
\<close>

definition drained :: "nat \<Rightarrow> ClientList \<Rightarrow> Adafruit_CC3000_Client" where
  "drained a n = fst (drain a (client n) [])"

definition stays :: "(nat \<rightharpoonup> ClientList) \<Rightarrow> nat \<Rightarrow> bool" where
  "stays h a = (case h a of None \<Rightarrow> False | Some n \<Rightarrow> connected (drained a n))"

definition node_events :: "(nat \<rightharpoonup> ClientList) \<Rightarrow> nat \<Rightarrow> event list" where
  "node_events h a =
     (case h a of
        None \<Rightarrow> []
      | Some n \<Rightarrow>
          snd (drain a (client n) []) @ [Connected a (connected (drained a n))] @
          (if connected (drained a n) then []
           else [Serial (Print ''Client on socket ''), Serial (PrintInt (socket n)),
                 Serial (Println '' disconnected.''), Free a]))"

text \<open>
  The state once the node at \<open>a\<close>, holding \<open>n\<close>, has been drained and its liveness
  checked (line 249), and the three prints that announce a disconnect (lines 250 to 252).
\<close>

definition served :: "nat \<Rightarrow> ClientList \<Rightarrow> state \<Rightarrow> state" where
  "served a n s =
     emit [Connected a (connected (drained a n))]
       (emit (snd (drain a (client n) []))
          (s\<lparr>heap := (heap s)(a \<mapsto> n\<lparr>client := drained a n\<rparr>)\<rparr>))"

definition farewell :: "ClientList \<Rightarrow> event list" where
  "farewell n = [Serial (Print ''Client on socket ''), Serial (PrintInt (socket n)),
                 Serial (Println '' disconnected.'')]"

text \<open>The nodes whose liveness was checked, in the order of the checks.\<close>

fun visited :: "event list \<Rightarrow> nat list" where
  "visited [] = []"
| "visited (Connected x b # es) = x # visited es"
| "visited (e # es) = visited es"

text \<open>A state with the empty registry and nothing allocated.\<close>

definition started :: state where
  "started = \<lparr>heap = Map.empty, listenSocket = 0, clients = None, clientCount = 0, trace = []\<rparr>"

text \<open>The state that \<open>echoSetup\<close> leaves when every call of the setup succeeds.\<close>

definition listening :: state where
  "listening = emit [Serial (Println ''Listening for connections...'')] started"

text \<open>What can be printed of a result: the count, the head and the trace.\<close>

definition outcome :: "state result \<Rightarrow> (fault + int \<times> ptr \<times> event list) option" where
  "outcome r = map_option (map_sum id (\<lambda>s. (clientCount s, clients s, trace s))) r"

text \<open>
  A registry of three connections for the examples: the head at address 30, then 20,
  then 10.  The session at 20 has two bytes waiting; the peer of the session at 10
  has closed.
\<close>

definition demo_heap :: "nat \<rightharpoonup> ClientList" where
  "demo_heap =
     [10 \<mapsto> \<lparr>socket = 1,
             client = \<lparr>handle = 1, rx = [], tx = [], live = False, wok = []\<rparr>,
             next = None\<rparr>,
      20 \<mapsto> \<lparr>socket = 2,
             client = \<lparr>handle = 2, rx = [104, 105], tx = [], live = True, wok = []\<rparr>,
             next = Some 10\<rparr>,
      30 \<mapsto> \<lparr>socket = 3,
             client = \<lparr>handle = 3, rx = [], tx = [], live = True, wok = []\<rparr>,
             next = Some 20\<rparr>]"

definition demo :: state where
  "demo = \<lparr>heap = demo_heap, listenSocket = 0, clients = Some 30, clientCount = 3, trace = []\<rparr>"

text \<open>A session with the three bytes of \<^verbatim>\<open>"hi\n"\<close> waiting.\<close>

definition hi :: Adafruit_CC3000_Client where
  "hi = \<lparr>handle = 2, rx = [104, 105, 10], tx = [], live = True, wok = []\<rparr>"

declare drain.simps [simp del]

section \<open>Chains in the store\<close>

lemma chain_same_store:
  "(\<And>x. x \<in> set as \<Longrightarrow> h' x = h x) \<Longrightarrow> chain h' p as = chain h p as"
  by (induction as arbitrary: p) (auto split: option.splits)

lemma chain_unique: "chain h p as \<Longrightarrow> chain h p bs \<Longrightarrow> as = bs"
proof (induction as arbitrary: p bs)
  case Nil
  then show ?case by (cases bs) auto
next
  case (Cons a as)
  then show ?case by (cases bs) (auto split: option.splits)
qed

lemma chain_suffix: "chain h p (xs @ ys) \<Longrightarrow> \<exists>q. chain h q ys"
  by (induction xs arbitrary: p) (auto split: option.splits)

lemma chain_allocated: "chain h p as \<Longrightarrow> a \<in> set as \<Longrightarrow> h a \<noteq> None"
  by (induction as arbitrary: p) (auto split: option.splits)

lemma chain_head_notin_tail:
  assumes "h a = Some n" "chain h (next n) as"
  shows "a \<notin> set as"
proof
  assume "a \<in> set as"
  then obtain xs ys where as: "as = xs @ a # ys"
    by (auto simp: in_set_conv_decomp)
  with assms(2) obtain q where "chain h q (a # ys)"
    using chain_suffix by blast
  with assms(1) have "chain h (next n) ys" by simp
  with assms(2) have "as = ys" by (rule chain_unique)
  with as show False by simp
qed

lemma chain_distinct: "chain h p as \<Longrightarrow> distinct as"
  by (induction as arbitrary: p) (auto split: option.splits dest: chain_head_notin_tail)

lemma find_before_found:
  "chain h i (xs @ p # a # ys) \<Longrightarrow> a \<notin> set xs \<Longrightarrow> a \<noteq> p \<Longrightarrow>
   find_before h (Some a) i = Some (Inr (Some p))"
proof (induction xs arbitrary: i)
  case Nil
  then show ?case
    by (subst find_before.simps) (auto split: option.splits)
next
  case (Cons x xs)
  from Cons.prems obtain n where n: "i = Some x" "h x = Some n" "chain h (next n) (xs @ p # a # ys)"
    by (auto split: option.splits)
  from n(3) have "next n = Some (hd (xs @ [p]))"
    by (cases xs) auto
  with Cons.prems have "next n \<noteq> Some a"
    by (cases xs) auto
  moreover have "find_before h (Some a) (next n) = Some (Inr (Some p))"
    using Cons.IH [OF n(3)] Cons.prems by simp
  ultimately show ?case
    using n by (subst find_before.simps) simp
qed

lemma find_before_absent:
  "chain h i as \<Longrightarrow> a \<notin> set as \<Longrightarrow> find_before h (Some a) i = Some (Inr None)"
proof (induction as arbitrary: i)
  case Nil
  then show ?case by (subst find_before.simps) simp
next
  case (Cons x xs)
  from Cons.prems obtain n where n: "i = Some x" "h x = Some n" "chain h (next n) xs"
    by (auto split: option.splits)
  from n(3) Cons.prems(2) have "next n \<noteq> Some a"
    by (cases xs) auto
  moreover have "find_before h (Some a) (next n) = Some (Inr None)"
    using Cons.IH [OF n(3)] Cons.prems by simp
  ultimately show ?case
    using n by (subst find_before.simps) simp
qed

lemma chain_relink:
  "chain h i (xs @ p # a # ys) \<Longrightarrow> distinct (xs @ p # a # ys) \<Longrightarrow>
   h p = Some pn \<Longrightarrow> h a = Some n \<Longrightarrow>
   chain (h(p \<mapsto> pn\<lparr>next := next n\<rparr>, a := None)) i (xs @ p # ys)"
proof (induction xs arbitrary: i)
  case Nil
  then have "chain h (next n) ys" by simp
  moreover have "chain (h(p \<mapsto> pn\<lparr>next := next n\<rparr>, a := None)) (next n) ys = chain h (next n) ys"
    using Nil.prems(2) by (intro chain_same_store) auto
  ultimately have "chain (h(p \<mapsto> pn\<lparr>next := next n\<rparr>, a := None)) (next n) ys"
    by simp
  moreover have "(h(p \<mapsto> pn\<lparr>next := next n\<rparr>, a := None)) p = Some (pn\<lparr>next := next n\<rparr>)"
    using Nil.prems(2) by simp
  ultimately show ?case using Nil.prems(1) by (simp del: fun_upd_apply)
next
  case (Cons x xs)
  then obtain nx where nx: "i = Some x" "h x = Some nx" "chain h (next nx) (xs @ p # a # ys)"
    by (auto split: option.splits)
  have "(h(p \<mapsto> pn\<lparr>next := next n\<rparr>, a := None)) x = Some nx"
    using Cons.prems(2) nx by simp
  moreover have "chain (h(p \<mapsto> pn\<lparr>next := next n\<rparr>, a := None)) (next nx) (xs @ p # ys)"
    using Cons.prems by (intro Cons.IH [OF nx(3)]) auto
  ultimately show ?case using nx by (simp del: fun_upd_apply)
qed

lemma removeClient_member:
  assumes "chain (heap s) (clients s) (ks @ a # as)"
  shows "\<exists>s'. removeClient (Some a) s = Some (Inr s') \<and>
           chain (heap s') (clients s') (ks @ as) \<and>
           clientCount s' = clientCount s - 1 \<and>
           trace s' = trace s @ [Free a] \<and>
           listenSocket s' = listenSocket s \<and>
           heap s' a = None \<and>
           (\<forall>x. x \<noteq> a \<longrightarrow> map_option client (heap s' x) = map_option client (heap s x)
                      \<and> map_option socket (heap s' x) = map_option socket (heap s x)) \<and>
           (\<forall>x. x \<noteq> a \<longrightarrow> x \<notin> set ks \<longrightarrow> heap s' x = heap s x)"
proof -
  have d: "distinct (ks @ a # as)"
    using assms by (rule chain_distinct)
  show ?thesis
  proof (cases ks rule: rev_cases)
    case Nil
    with assms obtain n where n: "clients s = Some a" "heap s a = Some n" "chain (heap s) (next n) as"
      by (auto split: option.splits)
    have "chain ((heap s)(a := None)) (next n) as = chain (heap s) (next n) as"
      using d Nil by (intro chain_same_store) auto
    with n Nil show ?thesis
      by (simp add: removeClient_def release_def emit_def)
  next
    case (snoc ks' p)
    with assms have ch: "chain (heap s) (clients s) (ks' @ p # a # as)" by simp
    from d snoc have ne: "a \<notin> set ks'" "a \<noteq> p" by auto
    from ch have hd: "clients s \<noteq> Some a"
      using ne by (cases ks') auto
    have fb: "find_before (heap s) (Some a) (clients s) = Some (Inr (Some p))"
      using ch ne by (rule find_before_found)
    obtain pn where pn: "heap s p = Some pn"
      using chain_allocated [OF ch, of p] by auto
    obtain n where n: "heap s a = Some n"
      using chain_allocated [OF ch, of a] by auto
    have "chain ((heap s)(p \<mapsto> pn\<lparr>next := next n\<rparr>, a := None)) (clients s) (ks' @ p # as)"
      using ch d snoc pn n by (intro chain_relink) auto
    with hd fb pn n snoc ne show ?thesis
      by (simp add: removeClient_def release_def emit_def)
  qed
qed

lemma removeClient_absent:
  assumes "chain (heap s) (clients s) as" "a \<notin> set as"
  shows "removeClient (Some a) s = Some (Inr s)"
proof -
  from assms have "clients s \<noteq> Some a" by (cases as) auto
  moreover have "find_before (heap s) (Some a) (clients s) = Some (Inr None)"
    using assms by (rule find_before_absent)
  ultimately show ?thesis by (simp add: removeClient_def)
qed



section \<open>The drain loop\<close>

lemma drain_empty: "rx c = [] \<Longrightarrow> drain a c t = (c, t @ [Available a 0])"
  by (subst drain.simps) (simp add: available_def)

lemma drain_step:
  "rx c = b # bs \<Longrightarrow>
   drain a c t =
     drain a (snd (write b (c\<lparr>rx := bs\<rparr>)))
       (t @ step_events a b (Suc (length bs)) (fst (write b (c\<lparr>rx := bs\<rparr>))))"
  by (subst drain.simps)
     (simp add: available_def read_def Let_def step_events_def split: prod.splits)

lemma write_rx: "rx (snd (write b c)) = rx c"
  by (simp add: write_def split: list.splits)

lemma write_live: "live (snd (write b c)) = live c"
  by (simp add: write_def split: list.splits)

lemma write_tx:
  "tx (snd (write b c)) = (if fst (write b c) = 0 then tx c else tx c @ [b])"
  by (simp add: write_def split: list.splits)

lemma drain_acc:
  "rx c = bs \<Longrightarrow> drain a c t = (fst (drain a c []), t @ snd (drain a c []))"
proof (induction bs arbitrary: c t)
  case Nil
  then show ?case by (simp add: drain_empty)
next
  case (Cons b bs)
  let ?c2 = "snd (write b (c\<lparr>rx := bs\<rparr>))"
  let ?ev = "step_events a b (Suc (length bs)) (fst (write b (c\<lparr>rx := bs\<rparr>)))"
  have r: "rx ?c2 = bs" by (simp add: write_rx)
  have "drain a c t = drain a ?c2 (t @ ?ev)"
    by (rule drain_step [OF Cons.prems])
  also have "\<dots> = (fst (drain a ?c2 []), (t @ ?ev) @ snd (drain a ?c2 []))"
    by (rule Cons.IH [OF r])
  finally have A: "drain a c t = (fst (drain a ?c2 []), (t @ ?ev) @ snd (drain a ?c2 []))" .
  have "drain a c [] = drain a ?c2 ([] @ ?ev)"
    by (rule drain_step [OF Cons.prems])
  also have "\<dots> = (fst (drain a ?c2 []), ([] @ ?ev) @ snd (drain a ?c2 []))"
    by (rule Cons.IH [OF r])
  finally have B: "drain a c [] = (fst (drain a ?c2 []), ([] @ ?ev) @ snd (drain a ?c2 []))" .
  show ?case
    by (simp only: A B fst_conv snd_conv append_assoc append_Nil)
qed

lemma drain_unfold:
  assumes "rx c = b # bs"
  shows "drain a c [] =
     (fst (drain a (snd (write b (c\<lparr>rx := bs\<rparr>))) []),
      step_events a b (Suc (length bs)) (fst (write b (c\<lparr>rx := bs\<rparr>))) @
      snd (drain a (snd (write b (c\<lparr>rx := bs\<rparr>))) []))"
proof -
  let ?c2 = "snd (write b (c\<lparr>rx := bs\<rparr>))"
  let ?ev = "step_events a b (Suc (length bs)) (fst (write b (c\<lparr>rx := bs\<rparr>)))"
  have r: "rx ?c2 = bs" by (simp add: write_rx)
  have "drain a c [] = drain a ?c2 ([] @ ?ev)"
    by (rule drain_step [OF assms])
  also have "\<dots> = (fst (drain a ?c2 []), ([] @ ?ev) @ snd (drain a ?c2 []))"
    by (rule drain_acc [OF r])
  finally show ?thesis by (simp only: append_Nil)
qed

lemma drain_rx: "rx c = bs \<Longrightarrow> rx (fst (drain a c [])) = []"
proof (induction bs arbitrary: c)
  case Nil
  then show ?case by (simp add: drain_empty)
next
  case (Cons b bs)
  have r: "rx (snd (write b (c\<lparr>rx := bs\<rparr>))) = bs" by (simp add: write_rx)
  show ?case
    using Cons.IH [OF r] by (simp add: drain_unfold [OF Cons.prems])
qed

lemma drain_live: "rx c = bs \<Longrightarrow> live (fst (drain a c [])) = live c"
proof (induction bs arbitrary: c)
  case Nil
  then show ?case by (simp add: drain_empty)
next
  case (Cons b bs)
  have r: "rx (snd (write b (c\<lparr>rx := bs\<rparr>))) = bs" by (simp add: write_rx)
  show ?case
    using Cons.IH [OF r] by (simp add: drain_unfold [OF Cons.prems] write_live)
qed

lemma stays_live: "h a = Some n \<Longrightarrow> stays h a = live (client n)"
  by (simp add: stays_def drained_def connected_def drain_live)

lemma written_append: "written (xs @ ys) = written xs @ written ys"
  by (induction xs rule: written.induct) auto

lemma drain_tx_written:
  "rx c = bs \<Longrightarrow> \<forall>e\<in>set (snd (drain a c [])). \<not> failed_write e \<Longrightarrow>
   tx (fst (drain a c [])) = tx c @ bs \<and> written (snd (drain a c [])) = map (Pair a) bs"
proof (induction bs arbitrary: c)
  case Nil
  then show ?case by (simp add: drain_empty)
next
  case (Cons b bs)
  let ?c2 = "snd (write b (c\<lparr>rx := bs\<rparr>))"
  let ?w = "fst (write b (c\<lparr>rx := bs\<rparr>))"
  have r: "rx ?c2 = bs" by (simp add: write_rx)
  note st = drain_unfold [OF Cons.prems(1), of a]
  from Cons.prems(2) have w: "?w \<noteq> 0"
    and rest: "\<forall>e\<in>set (snd (drain a ?c2 [])). \<not> failed_write e"
    by (auto simp: st step_events_def)
  from Cons.IH [OF r rest] w show ?case
    by (simp add: st write_tx written_append step_events_def)
qed

lemma drain_events_shape:
  "rx c = bs \<Longrightarrow>
   (\<forall>e\<in>set (snd (drain a c [])). \<not> liveness_check x e \<and> \<not> accept_call e \<and> \<not> malloc_call e
       \<and> (x \<noteq> a \<longrightarrow> \<not> session_call x e)) \<and>
   (\<exists>es. snd (drain a c []) = es @ [Available a 0])"
proof (induction bs arbitrary: c)
  case Nil
  then show ?case by (simp add: drain_empty)
next
  case (Cons b bs)
  let ?c2 = "snd (write b (c\<lparr>rx := bs\<rparr>))"
  have r: "rx ?c2 = bs" by (simp add: write_rx)
  note st = drain_unfold [OF Cons.prems(1), of a]
  from Cons.IH [OF r] show ?case
    by (auto simp: st step_events_def)
qed

lemma drain_hi:
  "drain 20 hi [] =
     (\<lparr>handle = 2, rx = [], tx = [104, 105, 10], live = True, wok = []\<rparr>,
      [Available 20 3, Read 20 104, Write 20 104 1,
       Available 20 2, Read 20 105, Write 20 105 1,
       Available 20 1, Read 20 10, Write 20 10 1,
       Available 20 0])"
  by (simp add: hi_def drain_unfold drain_empty step_events_def write_def)

section \<open>The pass over the clients\<close>

lemma pass_done: "echoLoop_clients None s = Some (Inr s)"
  by (subst echoLoop_clients.simps) simp

lemma pass_stay:
  "heap s a = Some n \<Longrightarrow> connected (drained a n) \<Longrightarrow>
   echoLoop_clients (Some a) s = echoLoop_clients (next n) (served a n s)"
  by (subst echoLoop_clients.simps) (simp add: Let_def served_def drained_def)

lemma pass_gone:
  "heap s a = Some n \<Longrightarrow> \<not> connected (drained a n) \<Longrightarrow>
   removeClient (Some a) (emit (farewell n) (served a n s)) = Some (Inr s3) \<Longrightarrow>
   echoLoop_clients (Some a) s = echoLoop_clients (next n) s3"
  by (subst echoLoop_clients.simps) (simp add: Let_def served_def drained_def farewell_def)

lemma chain_client_update:
  "h a = Some n \<Longrightarrow> chain (h(a \<mapsto> n\<lparr>client := c\<rparr>)) p as = chain h p as"
  by (induction as arbitrary: p) (auto split: option.splits)

lemma served_fields:
  "clients (served a n s) = clients s"
  "clientCount (served a n s) = clientCount s"
  "listenSocket (served a n s) = listenSocket s"
  "heap (served a n s) = (heap s)(a \<mapsto> n\<lparr>client := drained a n\<rparr>)"
  "trace (served a n s) =
     trace s @ snd (drain a (client n) []) @ [Connected a (connected (drained a n))]"
  by (simp_all add: served_def emit_def)

lemma emit_fields:
  "clients (emit es s) = clients s"
  "clientCount (emit es s) = clientCount s"
  "listenSocket (emit es s) = listenSocket s"
  "heap (emit es s) = heap s"
  "trace (emit es s) = trace s @ es"
  by (simp_all add: emit_def)

lemma pass_correct:
  assumes "chain (heap s) (clients s) (ks @ as)" and "chain (heap s) i as"
  shows "\<exists>s'. echoLoop_clients i s = Some (Inr s') \<and>
           chain (heap s') (clients s') (ks @ filter (stays (heap s)) as) \<and>
           trace s' = trace s @ concat (map (node_events (heap s)) as) \<and>
           clientCount s' = clientCount s - int (length (filter (\<lambda>x. \<not> stays (heap s) x) as)) \<and>
           listenSocket s' = listenSocket s \<and>
           (\<forall>x. heap s x = None \<longrightarrow> heap s' x = None) \<and>
           (\<forall>x\<in>set as. \<not> stays (heap s) x \<longrightarrow> heap s' x = None) \<and>
           (\<forall>x\<in>set as. stays (heap s) x \<longrightarrow>
                map_option client (heap s' x) = map_option (drained x) (heap s x)) \<and>
           (\<forall>x. x \<notin> set as \<longrightarrow> map_option client (heap s' x) = map_option client (heap s x))"
  using assms
proof (induction as arbitrary: s i ks)
  case Nil
  then show ?case by (simp add: pass_done)
next
  case (Cons a as)
  from Cons.prems(2) obtain n where n: "i = Some a" "heap s a = Some n" "chain (heap s) (next n) as"
    by (auto split: option.splits)
  have d: "distinct (ks @ a # as)"
    using Cons.prems(1) by (rule chain_distinct)
  let ?s2 = "served a n s"
  have same2: "\<And>x. x \<noteq> a \<Longrightarrow> heap ?s2 x = heap s x"
    by (simp add: served_fields)
  have at2: "heap ?s2 a = Some (n\<lparr>client := drained a n\<rparr>)"
    by (simp add: served_fields)
  have ch2: "chain (heap ?s2) (clients ?s2) (ks @ a # as)"
    using Cons.prems(1) n(2) by (simp add: served_fields chain_client_update)
  have ev: "node_events (heap s) a =
      snd (drain a (client n) []) @ [Connected a (connected (drained a n))] @
      (if connected (drained a n) then [] else farewell n @ [Free a])"
    using n(2) by (simp add: node_events_def farewell_def)
  have st: "stays (heap s) a = connected (drained a n)"
    using n(2) by (simp add: stays_def)
  have tr2: "trace ?s2 = trace s @ snd (drain a (client n) []) @ [Connected a (connected (drained a n))]"
    by (simp add: served_fields)
  have cnt2: "clientCount ?s2 = clientCount s" and ls2: "listenSocket ?s2 = listenSocket s"
    by (simp_all add: served_fields)
  show ?case
  proof (cases "connected (drained a n)")
    case True
    have run: "echoLoop_clients i s = echoLoop_clients (next n) ?s2"
      unfolding n(1) using n(2) True by (rule pass_stay)
    have nx2: "chain (heap ?s2) (next n) as"
      using n by (simp add: served_fields chain_client_update)
    from ch2 have "chain (heap ?s2) (clients ?s2) ((ks @ [a]) @ as)" by simp
    from Cons.IH [OF this nx2] obtain s' where s':
      "echoLoop_clients (next n) ?s2 = Some (Inr s')"
      "chain (heap s') (clients s') ((ks @ [a]) @ filter (stays (heap ?s2)) as)"
      "trace s' = trace ?s2 @ concat (map (node_events (heap ?s2)) as)"
      "clientCount s' = clientCount ?s2 - int (length (filter (\<lambda>x. \<not> stays (heap ?s2) x) as))"
      "listenSocket s' = listenSocket ?s2"
      "\<forall>x. heap ?s2 x = None \<longrightarrow> heap s' x = None"
      "\<forall>x\<in>set as. \<not> stays (heap ?s2) x \<longrightarrow> heap s' x = None"
      "\<forall>x\<in>set as. stays (heap ?s2) x \<longrightarrow>
          map_option client (heap s' x) = map_option (drained x) (heap ?s2 x)"
      "\<forall>x. x \<notin> set as \<longrightarrow> map_option client (heap s' x) = map_option client (heap ?s2 x)"
      by (elim exE conjE)
    have eqs: "\<And>x. x \<in> set as \<Longrightarrow> heap ?s2 x = heap s x"
      using d by (intro same2) auto
    have sty: "\<And>x. x \<in> set as \<Longrightarrow> stays (heap ?s2) x = stays (heap s) x"
      by (simp only: stays_def eqs)
    have nev: "\<And>x. x \<in> set as \<Longrightarrow> node_events (heap ?s2) x = node_events (heap s) x"
      by (simp only: node_events_def eqs)
    have f1: "filter (stays (heap ?s2)) as = filter (stays (heap s)) as"
      by (rule filter_cong) (simp_all only: sty)
    have f2: "filter (\<lambda>x. \<not> stays (heap ?s2) x) as = filter (\<lambda>x. \<not> stays (heap s) x) as"
      by (rule filter_cong) (simp_all only: sty)
    have f3: "map (node_events (heap ?s2)) as = map (node_events (heap s)) as"
      by (rule map_cong) (simp_all only: nev)
    have c1: "chain (heap s') (clients s') (ks @ filter (stays (heap s)) (a # as))"
      using s'(2) st True by (simp add: f1)
    have c2: "trace s' = trace s @ concat (map (node_events (heap s)) (a # as))"
      using True by (simp add: s'(3) f3 tr2 ev)
    have c3: "clientCount s' =
        clientCount s - int (length (filter (\<lambda>x. \<not> stays (heap s) x) (a # as)))"
      using st True by (simp add: s'(4) f2 cnt2)
    have c4: "listenSocket s' = listenSocket s"
      by (simp add: s'(5) ls2)
    have c5: "\<forall>x. heap s x = None \<longrightarrow> heap s' x = None"
    proof (intro allI impI)
      fix x assume "heap s x = None"
      with n(2) have "x \<noteq> a" by auto
      with \<open>heap s x = None\<close> have "heap ?s2 x = None" by (simp add: same2)
      with s'(6) show "heap s' x = None" by blast
    qed
    have c6: "\<forall>x\<in>set (a # as). \<not> stays (heap s) x \<longrightarrow> heap s' x = None"
      using s'(7) st True by (auto simp: sty)
    have "a \<notin> set as" using d by simp
    with s'(9) have "map_option client (heap s' a) = map_option client (heap ?s2 a)"
      by blast
    then have ca: "map_option client (heap s' a) = map_option (drained a) (heap s a)"
      by (simp add: at2 n(2))
    have c7: "\<forall>x\<in>set (a # as). stays (heap s) x \<longrightarrow>
        map_option client (heap s' x) = map_option (drained x) (heap s x)"
      using s'(8) ca by (auto simp: sty eqs)
    have c8: "\<forall>x. x \<notin> set (a # as) \<longrightarrow>
        map_option client (heap s' x) = map_option client (heap s x)"
      using s'(9) by (auto simp: same2)
    show ?thesis
    proof (intro exI conjI)
      show "echoLoop_clients i s = Some (Inr s')" using run s'(1) by simp
    qed (rule c1 c2 c3 c4 c5 c6 c7 c8)+
  next
    case False
    let ?s2f = "emit (farewell n) ?s2"
    have "chain (heap ?s2f) (clients ?s2f) (ks @ a # as)"
      using ch2 by (simp add: emit_fields)
    from removeClient_member [OF this] obtain s3 where s3:
      "removeClient (Some a) ?s2f = Some (Inr s3)"
      "chain (heap s3) (clients s3) (ks @ as)"
      "clientCount s3 = clientCount ?s2f - 1"
      "trace s3 = trace ?s2f @ [Free a]"
      "listenSocket s3 = listenSocket ?s2f"
      "heap s3 a = None"
      "\<forall>x. x \<noteq> a \<longrightarrow> map_option client (heap s3 x) = map_option client (heap ?s2f x)
                      \<and> map_option socket (heap s3 x) = map_option socket (heap ?s2f x)"
      "\<forall>x. x \<noteq> a \<longrightarrow> x \<notin> set ks \<longrightarrow> heap s3 x = heap ?s2f x"
      by (elim exE conjE)
    have run: "echoLoop_clients i s = echoLoop_clients (next n) s3"
      unfolding n(1) using n(2) False s3(1) by (rule pass_gone)
    have eqs: "\<And>x. x \<in> set as \<Longrightarrow> heap s3 x = heap s x"
    proof -
      fix x assume "x \<in> set as"
      with d have "x \<noteq> a" "x \<notin> set ks" by auto
      with s3(8) have "heap s3 x = heap ?s2f x" by blast
      with \<open>x \<noteq> a\<close> show "heap s3 x = heap s x" by (simp add: emit_fields same2)
    qed
    have cl3: "\<And>x. x \<noteq> a \<Longrightarrow> map_option client (heap s3 x) = map_option client (heap s x)"
    proof -
      fix x assume "x \<noteq> a"
      with s3(7) have "map_option client (heap s3 x) = map_option client (heap ?s2f x)" by blast
      with \<open>x \<noteq> a\<close> show "map_option client (heap s3 x) = map_option client (heap s x)"
        by (simp add: emit_fields same2)
    qed
    have nx3: "chain (heap s3) (next n) as"
      using n(3) chain_same_store [of as "heap s3" "heap s" "next n"] eqs by blast
    from Cons.IH [OF s3(2) nx3] obtain s' where s':
      "echoLoop_clients (next n) s3 = Some (Inr s')"
      "chain (heap s') (clients s') (ks @ filter (stays (heap s3)) as)"
      "trace s' = trace s3 @ concat (map (node_events (heap s3)) as)"
      "clientCount s' = clientCount s3 - int (length (filter (\<lambda>x. \<not> stays (heap s3) x) as))"
      "listenSocket s' = listenSocket s3"
      "\<forall>x. heap s3 x = None \<longrightarrow> heap s' x = None"
      "\<forall>x\<in>set as. \<not> stays (heap s3) x \<longrightarrow> heap s' x = None"
      "\<forall>x\<in>set as. stays (heap s3) x \<longrightarrow>
          map_option client (heap s' x) = map_option (drained x) (heap s3 x)"
      "\<forall>x. x \<notin> set as \<longrightarrow> map_option client (heap s' x) = map_option client (heap s3 x)"
      by (elim exE conjE)
    have sty: "\<And>x. x \<in> set as \<Longrightarrow> stays (heap s3) x = stays (heap s) x"
      by (simp only: stays_def eqs)
    have nev: "\<And>x. x \<in> set as \<Longrightarrow> node_events (heap s3) x = node_events (heap s) x"
      by (simp only: node_events_def eqs)
    have f1: "filter (stays (heap s3)) as = filter (stays (heap s)) as"
      by (rule filter_cong) (simp_all only: sty)
    have f2: "filter (\<lambda>x. \<not> stays (heap s3) x) as = filter (\<lambda>x. \<not> stays (heap s) x) as"
      by (rule filter_cong) (simp_all only: sty)
    have f3: "map (node_events (heap s3)) as = map (node_events (heap s)) as"
      by (rule map_cong) (simp_all only: nev)
    have tr3: "trace s3 = trace s @ node_events (heap s) a"
      using False by (simp add: s3(4) emit_fields tr2 ev)
    have cnt3: "clientCount s3 = clientCount s - 1"
      by (simp add: s3(3) emit_fields cnt2)
    have c1: "chain (heap s') (clients s') (ks @ filter (stays (heap s)) (a # as))"
      using s'(2) st False by (simp add: f1)
    have c2: "trace s' = trace s @ concat (map (node_events (heap s)) (a # as))"
      by (simp add: s'(3) f3 tr3)
    have c3: "clientCount s' =
        clientCount s - int (length (filter (\<lambda>x. \<not> stays (heap s) x) (a # as)))"
      using st False by (simp add: s'(4) f2 cnt3)
    have c4: "listenSocket s' = listenSocket s"
      by (simp add: s'(5) s3(5) emit_fields ls2)
    have c5: "\<forall>x. heap s x = None \<longrightarrow> heap s' x = None"
    proof (intro allI impI)
      fix x assume "heap s x = None"
      with n(2) have "x \<noteq> a" by auto
      with \<open>heap s x = None\<close> have "heap s3 x = None" using cl3 [of x] by simp
      with s'(6) show "heap s' x = None" by blast
    qed
    have "heap s' a = None" using s'(6) s3(6) by blast
    then have c6: "\<forall>x\<in>set (a # as). \<not> stays (heap s) x \<longrightarrow> heap s' x = None"
      using s'(7) by (auto simp: sty)
    have c7: "\<forall>x\<in>set (a # as). stays (heap s) x \<longrightarrow>
        map_option client (heap s' x) = map_option (drained x) (heap s x)"
      using s'(8) st False by (auto simp: sty eqs)
    have c8: "\<forall>x. x \<notin> set (a # as) \<longrightarrow>
        map_option client (heap s' x) = map_option client (heap s x)"
      using s'(9) by (auto simp: cl3)
    show ?thesis
    proof (intro exI conjI)
      show "echoLoop_clients i s = Some (Inr s')" using run s'(1) by simp
    qed (rule c1 c2 c3 c4 c5 c6 c7 c8)+
  qed
qed

section \<open>Insertion\<close>

lemma malloc_fresh: "malloc m h = Some a \<Longrightarrow> h a = None"
  by (auto simp: malloc_def split: option.splits if_splits)

lemma addNewClient_fail:
  "malloc m (heap s) = None \<Longrightarrow>
   addNewClient sock m s =
     emit [Malloc None,
           Serial (Println ''Error! Couldn't allocate space to store a new client.'')] s"
  by (simp add: addNewClient_def emit_def)

lemma addNewClient_ok:
  "malloc m (heap s) = Some a \<Longrightarrow>
   addNewClient sock m s =
     (emit [Malloc (Some a)] s)
       \<lparr>heap := (heap s)(a \<mapsto> \<lparr>socket = sock, client = new_client sock, next = clients s\<rparr>),
        clients := Some a,
        clientCount := clientCount s + 1\<rparr>"
  by (simp add: addNewClient_def emit_def Let_def)

lemma chain_insert:
  assumes "chain h p as" and "h a = None"
  shows "chain (h(a \<mapsto> \<lparr>socket = k, client = c, next = p\<rparr>)) (Some a) (a # as)"
proof -
  have "a \<notin> set as"
    using chain_allocated [OF assms(1), of a] assms(2) by auto
  then have "chain (h(a \<mapsto> \<lparr>socket = k, client = c, next = p\<rparr>)) p as = chain h p as"
    by (intro chain_same_store) auto
  with assms(1) show ?thesis
    by (simp add: fun_upd_same del: fun_upd_apply)
qed

lemma addNewClient_chain:
  assumes "chain (heap s) (clients s) as" and "malloc m (heap s) = Some a"
  shows "chain (heap (addNewClient sock m s)) (clients (addNewClient sock m s)) (a # as)"
    and "clientCount (addNewClient sock m s) = clientCount s + 1"
    and "clients (addNewClient sock m s) = Some a"
    and "trace (addNewClient sock m s) = trace s @ [Malloc (Some a)]"
proof -
  have "heap s a = None" using assms(2) by (rule malloc_fresh)
  with assms(1) show "chain (heap (addNewClient sock m s)) (clients (addNewClient sock m s)) (a # as)"
    by (simp add: addNewClient_ok [OF assms(2)] chain_insert emit_def del: fun_upd_apply chain.simps)
qed (simp_all add: addNewClient_ok [OF assms(2)] emit_def)

section \<open>Sequences of registry operations\<close>

lemma removeClient_registry:
  assumes "chain (heap s) (clients s) as" and "clientCount s = int (length as)"
  shows "\<exists>s' bs. removeClient cl s = Some (Inr s') \<and>
           chain (heap s') (clients s') bs \<and> clientCount s' = int (length bs)"
proof (cases cl)
  case None
  with assms show ?thesis by (auto simp: removeClient_def)
next
  case (Some a)
  show ?thesis
  proof (cases "a \<in> set as")
    case True
    then obtain ks bs where as: "as = ks @ a # bs"
      by (auto simp: in_set_conv_decomp)
    with assms(1) have "chain (heap s) (clients s) (ks @ a # bs)" by simp
    from removeClient_member [OF this] obtain s' where
      "removeClient (Some a) s = Some (Inr s')" "chain (heap s') (clients s') (ks @ bs)"
      "clientCount s' = clientCount s - 1"
      by blast
    with assms(2) as Some show ?thesis by auto
  next
    case False
    with assms(1) have "removeClient (Some a) s = Some (Inr s)"
      by (rule removeClient_absent)
    with assms Some show ?thesis by auto
  qed
qed

lemma addNewClient_registry:
  assumes "chain (heap s) (clients s) as" and "clientCount s = int (length as)"
  shows "\<exists>bs. chain (heap (addNewClient sock m s)) (clients (addNewClient sock m s)) bs \<and>
           clientCount (addNewClient sock m s) = int (length bs)"
proof (cases "malloc m (heap s)")
  case None
  with assms show ?thesis
    by (auto simp: addNewClient_fail emit_def)
next
  case (Some a)
  from addNewClient_chain(1,2) [OF assms(1) Some, of sock] assms(2)
  have "chain (heap (addNewClient sock m s)) (clients (addNewClient sock m s)) (a # as) \<and>
        clientCount (addNewClient sock m s) = int (length (a # as))"
    by simp
  then show ?thesis by blast
qed

lemma apply_ops_registry:
  "chain (heap s) (clients s) as \<Longrightarrow> clientCount s = int (length as) \<Longrightarrow>
   \<exists>s' bs. apply_ops ops s = Some (Inr s') \<and>
     chain (heap s') (clients s') bs \<and> clientCount s' = int (length bs)"
proof (induction ops arbitrary: s as)
  case Nil
  then show ?case by auto
next
  case (Cons op ops)
  show ?case
  proof (cases op)
    case (Insert sock m)
    from addNewClient_registry [OF Cons.prems, of sock m] obtain bs where
      "chain (heap (addNewClient sock m s)) (clients (addNewClient sock m s)) bs"
      "clientCount (addNewClient sock m s) = int (length bs)"
      by blast
    from Cons.IH [OF this] Insert show ?thesis by simp
  next
    case (Remove cl)
    from removeClient_registry [OF Cons.prems, of cl] obtain s1 bs where
      s1: "removeClient cl s = Some (Inr s1)" and
      "chain (heap s1) (clients s1) bs" "clientCount s1 = int (length bs)"
      by blast
    from Cons.IH [OF this(2,3)] Remove s1 show ?thesis by simp
  qed
qed

section \<open>The events of a tick\<close>

lemma pass_registry:
  assumes "chain (heap s) (clients s) as"
  shows "\<exists>s'. echoLoop_clients (clients s) s = Some (Inr s') \<and>
           chain (heap s') (clients s') (filter (stays (heap s)) as) \<and>
           trace s' = trace s @ concat (map (node_events (heap s)) as) \<and>
           clientCount s' = clientCount s - int (length (filter (\<lambda>x. \<not> stays (heap s) x) as)) \<and>
           listenSocket s' = listenSocket s \<and>
           (\<forall>x. heap s x = None \<longrightarrow> heap s' x = None) \<and>
           (\<forall>x\<in>set as. \<not> stays (heap s) x \<longrightarrow> heap s' x = None)"
proof -
  from assms have "chain (heap s) (clients s) ([] @ as)" by simp
  from pass_correct [OF this assms] show ?thesis by auto
qed

lemma visited_append: "visited (xs @ ys) = visited xs @ visited ys"
  by (induction xs rule: visited.induct) auto

lemma visited_drain: "rx c = bs \<Longrightarrow> visited (snd (drain a c [])) = []"
proof (induction bs arbitrary: c)
  case Nil
  then show ?case by (simp add: drain_empty)
next
  case (Cons b bs)
  have r: "rx (snd (write b (c\<lparr>rx := bs\<rparr>))) = bs" by (simp add: write_rx)
  show ?case
    using Cons.IH [OF r]
    by (simp add: drain_unfold [OF Cons.prems] step_events_def visited_append)
qed

lemma visited_node_events: "h a = Some n \<Longrightarrow> visited (node_events h a) = [a]"
  by (simp add: node_events_def visited_append visited_drain)

lemma visited_pass:
  "\<forall>x\<in>set as. h x \<noteq> None \<Longrightarrow> visited (concat (map (node_events h) as)) = as"
  by (induction as) (auto simp: visited_append visited_node_events)

lemma session_call_any: "session_call a e \<Longrightarrow> any_session_call e"
  by (cases e) auto

lemma liveness_is_session_call: "liveness_check a e \<Longrightarrow> session_call a e"
  by (cases e) auto

lemma node_events_self:
  assumes "h a = Some n"
  shows "\<exists>es tl. node_events h a = es @ [Available a 0, Connected a (stays h a)] @ tl \<and>
           (\<forall>e\<in>set es. \<not> liveness_check a e) \<and>
           (\<forall>e\<in>set tl. \<not> any_session_call e) \<and>
           (\<not> stays h a \<longrightarrow> Free a \<in> set tl)"
proof -
  from drain_events_shape [OF refl, of a "client n" a]
  obtain es where es: "snd (drain a (client n) []) = es @ [Available a 0]"
    and nl: "\<forall>e\<in>set (snd (drain a (client n) [])). \<not> liveness_check a e"
    by blast
  let ?tl = "if connected (drained a n) then []
             else [Serial (Print ''Client on socket ''), Serial (PrintInt (socket n)),
                   Serial (Println '' disconnected.''), Free a]"
  have "node_events h a = es @ [Available a 0, Connected a (stays h a)] @ ?tl"
    using assms es by (simp add: node_events_def stays_def)
  moreover have "\<forall>e\<in>set es. \<not> liveness_check a e"
    using nl es by simp
  moreover have "\<forall>e\<in>set ?tl. \<not> any_session_call e"
    by simp
  moreover have "\<not> stays h a \<longrightarrow> Free a \<in> set ?tl"
    using assms by (simp add: stays_def)
  ultimately show ?thesis by blast
qed

lemma node_events_other:
  assumes "x \<noteq> a"
  shows "\<forall>e\<in>set (node_events h x). \<not> session_call a e"
proof (cases "h x")
  case None
  then show ?thesis by (simp add: node_events_def)
next
  case (Some n)
  from drain_events_shape [OF refl, of x "client n" a] assms
  have "\<forall>e\<in>set (snd (drain x (client n) [])). \<not> session_call a e"
    by auto
  with Some assms show ?thesis
    by (auto simp: node_events_def)
qed

lemma node_events_quiet:
  "\<forall>e\<in>set (node_events h x). \<not> accept_call e \<and> \<not> malloc_call e"
proof (cases "h x")
  case None
  then show ?thesis by (simp add: node_events_def)
next
  case (Some n)
  from drain_events_shape [OF refl, of x "client n" x]
  have "\<forall>e\<in>set (snd (drain x (client n) [])). \<not> accept_call e \<and> \<not> malloc_call e"
    by auto
  with Some show ?thesis
    by (auto simp: node_events_def)
qed

lemma node_events_polled:
  "h a = Some n \<Longrightarrow> Available a 0 \<in> set (node_events h a)"
  using node_events_self [of h a n] by auto

lemma echoLoop_accept_cases:
  "echoLoop_accept r m s =
     (if clientCount s < MAX_CLIENTS then
        if r > -1 then
          (case malloc m (heap s) of
             None \<Rightarrow>
               emit [Accept (listenSocket s) r, Serial (Print ''New client connected on socket ''),
                     Serial (PrintlnInt r), Malloc None,
                     Serial (Println ''Error! Couldn't allocate space to store a new client.'')] s
           | Some a \<Rightarrow>
               (emit [Accept (listenSocket s) r, Serial (Print ''New client connected on socket ''),
                      Serial (PrintlnInt r), Malloc (Some a)] s)
                 \<lparr>heap := (heap s)(a \<mapsto> \<lparr>socket = r, client = new_client r, next = clients s\<rparr>),
                  clients := Some a,
                  clientCount := clientCount s + 1\<rparr>)
        else emit [Accept (listenSocket s) r] s
      else s)"
  by (simp add: echoLoop_accept_def addNewClient_def emit_def Let_def split: option.splits)

lemma accept_events:
  "\<exists>acc. trace (echoLoop_accept r m s) = trace s @ acc \<and>
     (\<forall>e\<in>set acc. \<not> any_session_call e) \<and>
     length (filter accept_call acc) \<le> 1 \<and> length (filter malloc_call acc) \<le> 1"
  by (auto simp: echoLoop_accept_cases emit_def split: option.splits)

lemma accept_chain:
  assumes "chain (heap s) (clients s) bs"
  shows "chain (heap (echoLoop_accept r m s)) (clients (echoLoop_accept r m s)) bs \<and>
           clientCount (echoLoop_accept r m s) = clientCount s \<or>
         (\<exists>a. malloc m (heap s) = Some a \<and> clients (echoLoop_accept r m s) = Some a \<and>
              clientCount (echoLoop_accept r m s) = clientCount s + 1 \<and>
              clientCount s < MAX_CLIENTS \<and>
              chain (heap (echoLoop_accept r m s)) (clients (echoLoop_accept r m s)) (a # bs))"
proof (cases "clientCount s < MAX_CLIENTS \<and> r > -1 \<and> malloc m (heap s) \<noteq> None")
  case True
  then obtain a where a: "malloc m (heap s) = Some a" by auto
  then have "heap s a = None" by (rule malloc_fresh)
  with assms have "chain ((heap s)(a \<mapsto> \<lparr>socket = r, client = new_client r, next = clients s\<rparr>))
      (Some a) (a # bs)"
    by (intro chain_insert)
  with True a show ?thesis
    by (simp add: echoLoop_accept_cases emit_def del: chain.simps fun_upd_apply)
next
  case False
  with assms show ?thesis
    by (auto simp: echoLoop_accept_cases emit_def split: option.splits)
qed

section \<open>Runs of the server\<close>

lemma filter_stays_length:
  "int (length as) - int (length (filter (\<lambda>x. \<not> P x) as)) = int (length (filter P as))"
  using sum_length_filter_compl [of P as] by simp

lemma echoLoop_invariant:
  assumes "chain (heap s) (clients s) as" and "clientCount s = int (length as)"
    and "clientCount s \<le> MAX_CLIENTS"
  shows "\<exists>s' bs. echoLoop r m s = Some (Inr s') \<and> chain (heap s') (clients s') bs \<and>
           clientCount s' = int (length bs) \<and> clientCount s' \<le> MAX_CLIENTS"
proof -
  from pass_registry [OF assms(1)] obtain s1 where s1:
    "echoLoop_clients (clients s) s = Some (Inr s1)"
    "chain (heap s1) (clients s1) (filter (stays (heap s)) as)"
    "clientCount s1 = clientCount s - int (length (filter (\<lambda>x. \<not> stays (heap s) x) as))"
    by blast
  let ?bs = "filter (stays (heap s)) as"
  let ?s' = "echoLoop_accept r m s1"
  have run: "echoLoop r m s = Some (Inr ?s')"
    using s1(1) by (simp add: echoLoop_def)
  have n1: "clientCount s1 = int (length ?bs)"
    using s1(3) assms(2) by (simp add: filter_stays_length)
  have le1: "clientCount s1 \<le> MAX_CLIENTS"
    using s1(3) assms(3) by simp
  from accept_chain [OF s1(2), of r m]
  have "\<exists>bs. chain (heap ?s') (clients ?s') bs \<and>
           clientCount ?s' = int (length bs) \<and> clientCount ?s' \<le> MAX_CLIENTS"
  proof
    assume "chain (heap ?s') (clients ?s') ?bs \<and> clientCount ?s' = clientCount s1"
    with n1 le1 show ?thesis by auto
  next
    assume "\<exists>a. malloc m (heap s1) = Some a \<and> clients ?s' = Some a \<and>
              clientCount ?s' = clientCount s1 + 1 \<and> clientCount s1 < MAX_CLIENTS \<and>
              chain (heap ?s') (clients ?s') (a # ?bs)"
    then obtain a where "chain (heap ?s') (clients ?s') (a # ?bs)"
      "clientCount ?s' = clientCount s1 + 1" "clientCount s1 < MAX_CLIENTS"
      by blast
    with n1 have "chain (heap ?s') (clients ?s') (a # ?bs) \<and>
        clientCount ?s' = int (length (a # ?bs)) \<and> clientCount ?s' \<le> MAX_CLIENTS"
      by simp
    then show ?thesis by blast
  qed
  with run show ?thesis by blast
qed

lemma chain_network: "chain (heap (network f s)) p as = chain (heap s) p as"
  by (induction as arbitrary: p) (auto simp: network_def split: option.splits)

lemma run_invariant:
  "chain (heap s) (clients s) as \<Longrightarrow> clientCount s = int (length as) \<Longrightarrow>
   clientCount s \<le> MAX_CLIENTS \<Longrightarrow>
   \<exists>s' bs. run steps s = Some (Inr s') \<and> chain (heap s') (clients s') bs \<and>
     clientCount s' = int (length bs) \<and> clientCount s' \<le> MAX_CLIENTS"
proof (induction steps arbitrary: s as)
  case Nil
  then show ?case by auto
next
  case (Cons st steps)
  show ?case
  proof (cases st)
    case (Tick r m)
    from echoLoop_invariant [OF Cons.prems, of r m] obtain s1 bs where
      s1: "echoLoop r m s = Some (Inr s1)" and
      "chain (heap s1) (clients s1) bs" "clientCount s1 = int (length bs)"
      "clientCount s1 \<le> MAX_CLIENTS"
      by blast
    from Cons.IH [OF this(2,3,4)] Tick s1 show ?thesis by simp
  next
    case (Network f)
    have "chain (heap (network f s)) (clients (network f s)) as"
      using Cons.prems(1) by (simp add: chain_network) (simp add: network_def)
    moreover have "clientCount (network f s) = int (length as)"
      "clientCount (network f s) \<le> MAX_CLIENTS"
      using Cons.prems(2,3) by (simp_all add: network_def)
    ultimately show ?thesis
      using Cons.IH [of "network f s" as] Network by simp
  qed
qed

lemma echoSetup_empty:
  "echoSetup t k so b l s00 = Some s0 \<Longrightarrow> clients s0 = None \<and> clientCount s0 = 0"
  by (auto simp: echoSetup_def emit_def Let_def split: if_splits)

section \<open>Worked examples\<close>

text \<open>
  The definitions run.  The scenarios of the spec, evaluated: a client connects, sends
  \<^verbatim>\<open>"hi\n"\<close>, gets it back and disconnects; a fourth caller is not accepted while three
  clients are connected; \<^verbatim>\<open>removeClient\<close> reading through a head pointer that points to
  no node; a tick on the registry of the examples, in which \<^verbatim>\<open>malloc\<close> hands the address
  of the node just freed to the connection just accepted.
\<close>

lemma echoSetup_started: "echoSetup 0 0 0 0 0 started = Some listening"
  by (simp add: echoSetup_def Let_def started_def listening_def emit_def)

lemma echoSetup_halts: "echoSetup 0 (-1) 0 0 0 started = None"
  by (simp add: echoSetup_def Let_def)

lemma scenario_hi:
  "outcome (run [Tick 4 (Some 1), Network (\<lambda>a c. c\<lparr>rx := [104, 105, 10]\<rparr>), Tick (-1) None,
                 Network (\<lambda>a c. c\<lparr>live := False\<rparr>), Tick (-1) None] started) =
   Some (Inr (0, None,
     [Accept 0 4, Serial (Print ''New client connected on socket ''), Serial (PrintlnInt 4),
      Malloc (Some 1),
      Available 1 3, Read 1 104, Write 1 104 1, Available 1 2, Read 1 105, Write 1 105 1,
      Available 1 1, Read 1 10, Write 1 10 1, Available 1 0, Connected 1 True, Accept 0 (- 1),
      Available 1 0, Connected 1 False, Serial (Print ''Client on socket ''),
      Serial (PrintInt 4), Serial (Println '' disconnected.''), Free 1, Accept 0 (- 1)]))"
  by code_simp

lemma scenario_fourth_caller:
  "map_option (map_sum id clientCount)
     (run [Tick 4 (Some 1), Tick 5 (Some 2), Tick 6 (Some 3), Tick 7 (Some 4)] listening) =
   Some (Inr 3)"
  by code_simp

lemma scenario_dangling_head:
  "outcome (removeClient (Some 50) (demo\<lparr>clients := Some 50\<rparr>)) = Some (Inl BadPointer)"
  by code_simp

lemma scenario_demo_tick:
  "outcome (echoLoop 4 (Some 10) demo) =
   Some (Inr (3, Some 10,
     [Available 30 0, Connected 30 True,
      Available 20 2, Read 20 104, Write 20 104 1, Available 20 1, Read 20 105, Write 20 105 1,
      Available 20 0, Connected 20 True,
      Available 10 0, Connected 10 False, Serial (Print ''Client on socket ''),
      Serial (PrintInt 1), Serial (Println '' disconnected.''), Free 10,
      Accept 0 4, Serial (Print ''New client connected on socket ''), Serial (PrintlnInt 4),
      Malloc (Some 10)]))"
  by code_simp

lemma scenario_ops:
  "outcome (apply_ops [Insert 5 (Some 1), Insert 6 (Some 2), Remove (Some 1), Remove None] started) =
   Some (Inr (1, Some 2, [Malloc (Some 1), Malloc (Some 2), Free 1]))"
  by code_simp

section \<open>The claims\<close>

text \<open>
  C1.  Echo fidelity of the drain loop.  If no \<^verbatim>\<open>write\<close> call of the drain returns 0,
  then the bytes written on the session by the end of the drain are those written
  before it, followed by exactly the bytes that were waiting, in arrival order and
  unchanged; no byte is left waiting; and the writes of the drain are all made on
  this node's session and carry these bytes in this order.
\<close>

theorem drain_echoes:
  assumes "\<forall>e\<in>set (snd (drain a c [])). \<not> failed_write e"
  shows "tx (fst (drain a c [])) = tx c @ rx c \<and>
         rx (fst (drain a c [])) = [] \<and>
         written (snd (drain a c [])) = map (Pair a) (rx c)"
  using drain_tx_written [OF refl assms] drain_rx [where c = c and a = a, OF refl] by simp

theorem drain_echoes_witness:
  "filter failed_write (snd (drain 20 hi [])) = [] \<and>
   tx (fst (drain 20 hi [])) = [104, 105, 10] \<and>
   written (snd (drain 20 hi [])) = [(20, 104), (20, 105), (20, 10)]"
proof -
  have h: "\<forall>e\<in>set (snd (drain 20 hi [])). \<not> failed_write e"
    by (simp add: drain_hi)
  have "tx hi @ rx hi = [104, 105, 10]" "map (Pair (20::nat)) (rx hi) = [(20, 104), (20, 105), (20, 10)]"
    by (simp_all add: hi_def)
  moreover have "filter failed_write (snd (drain 20 hi [])) = []"
    by (simp add: drain_hi)
  ultimately show ?thesis using drain_echoes [OF h] by simp
qed

text \<open>
  C2.  The count is the length of the chain.  Start from any state with the empty
  registry (\<^verbatim>\<open>clients\<close> is \<^verbatim>\<open>NULL\<close>, \<^verbatim>\<open>clientCount\<close> is 0) and take any sequence of calls
  of \<^verbatim>\<open>addNewClient\<close> (with any socket, the allocation succeeding or not) and
  \<^verbatim>\<open>removeClient\<close> (with any pointer).  After each of its operations, that is after
  its first \<open>k\<close> operations for every \<open>k\<close>, all calls have returned, the nodes
  reachable from \<^verbatim>\<open>clients\<close> form a chain that ends at \<^verbatim>\<open>NULL\<close>, and \<^verbatim>\<open>clientCount\<close> is
  the number of its nodes.
\<close>

theorem count_is_chain_length:
  assumes "clients s = None" and "clientCount s = 0"
  shows "\<exists>s' bs. apply_ops (take k ops) s = Some (Inr s') \<and>
           chain (heap s') (clients s') bs \<and> clientCount s' = int (length bs)"
proof -
  from assms have "chain (heap s) (clients s) []" "clientCount s = int (length ([]::nat list))"
    by simp_all
  then show ?thesis by (rule apply_ops_registry)
qed

theorem count_is_chain_length_witness:
  "clients started = None \<and> clientCount started = 0 \<and>
   (\<exists>s' bs. apply_ops (take 3 [Insert 5 (Some 1), Insert 6 (Some 2), Remove (Some 1), Remove None])
                started = Some (Inr s') \<and>
      chain (heap s') (clients s') bs \<and> clientCount s' = int (length bs))"
proof -
  have h: "clients started = None" "clientCount started = 0"
    by (simp_all add: started_def)
  have "\<exists>s' bs. apply_ops (take 3 [Insert 5 (Some 1), Insert 6 (Some 2), Remove (Some 1), Remove None])
                started = Some (Inr s') \<and>
      chain (heap s') (clients s') bs \<and> clientCount s' = int (length bs)"
    by (rule count_is_chain_length [OF h])
  with h show ?thesis by blast
qed

text \<open>
  C3.  The concurrency ceiling.  Take the state \<open>echoSetup\<close> leaves and any run from
  it: ticks with any \<^verbatim>\<open>accept\<close> results and allocator choices, the network acting on
  the sessions in between.  Every tick returns, and in the state reached the clients
  form a chain, \<^verbatim>\<open>clientCount\<close> is its length, and it is at most \<open>MAX_CLIENTS\<close>.  In a
  state whose count is \<open>MAX_CLIENTS\<close> the accept step changes nothing at all: the trace
  gets no \<^verbatim>\<open>accept\<close> and no \<^verbatim>\<open>malloc\<close> call, and the registry keeps every node.
\<close>

theorem concurrency_ceiling:
  assumes "echoSetup timeouts sock sockopt bound listened s00 = Some s0"
  shows "\<exists>s as. run steps s0 = Some (Inr s) \<and>
           chain (heap s) (clients s) as \<and> clientCount s = int (length as) \<and>
           clientCount s \<le> MAX_CLIENTS \<and>
           (\<forall>newSocket m s1. clientCount s1 = MAX_CLIENTS \<longrightarrow>
              echoLoop_accept newSocket m s1 = s1)"
proof -
  from echoSetup_empty [OF assms]
  have "chain (heap s0) (clients s0) []" "clientCount s0 = int (length ([]::nat list))"
    "clientCount s0 \<le> MAX_CLIENTS"
    by (simp_all add: MAX_CLIENTS_def)
  from run_invariant [OF this, of steps] show ?thesis
    by (auto simp: echoLoop_accept_def)
qed

theorem concurrency_ceiling_witness:
  "echoSetup 0 0 0 0 0 started = Some listening \<and>
   (\<exists>s as. run [Tick 4 (Some 1), Tick 5 (Some 2), Tick 6 (Some 3), Tick 7 (Some 4)] listening =
             Some (Inr s) \<and>
      chain (heap s) (clients s) as \<and> clientCount s = int (length as) \<and>
      clientCount s \<le> MAX_CLIENTS) \<and>
   map_option (map_sum id clientCount)
     (run [Tick 4 (Some 1), Tick 5 (Some 2), Tick 6 (Some 3), Tick 7 (Some 4)] listening) =
   Some (Inr 3)"
  using concurrency_ceiling [OF echoSetup_started,
      of "[Tick 4 (Some 1), Tick 5 (Some 2), Tick 6 (Some 3), Tick 7 (Some 4)]"]
    echoSetup_started scenario_fourth_caller
  by blast

text \<open>
  C4.  Removing a node that is in the registry, wherever it stands (head, middle, last
  or only node): \<^verbatim>\<open>removeClient\<close> returns, the chain from the head then visits exactly
  the other nodes in their former order, the count is one less, the node's storage is
  released, and the socket and session of every other node are untouched.
\<close>

theorem removeClient_keeps_rest:
  assumes "chain (heap s) (clients s) as" and "a \<in> set as"
  shows "\<exists>s'. removeClient (Some a) s = Some (Inr s') \<and>
           chain (heap s') (clients s') (filter (\<lambda>x. x \<noteq> a) as) \<and>
           clientCount s' = clientCount s - 1 \<and>
           heap s' a = None \<and>
           (\<forall>x. x \<noteq> a \<longrightarrow> map_option client (heap s' x) = map_option client (heap s x)
                      \<and> map_option socket (heap s' x) = map_option socket (heap s x))"
proof -
  have d: "distinct as"
    using assms(1) by (rule chain_distinct)
  from assms(2) obtain ks bs where as: "as = ks @ a # bs"
    by (auto simp: in_set_conv_decomp)
  with d have "filter (\<lambda>x. x \<noteq> a) ks = ks" "filter (\<lambda>x. x \<noteq> a) bs = bs"
    by (auto intro: filter_True)
  then have "filter (\<lambda>x. x \<noteq> a) as = ks @ bs"
    using as by simp
  moreover from assms(1) as have "chain (heap s) (clients s) (ks @ a # bs)"
    by simp
  ultimately show ?thesis
    using removeClient_member [of s ks a bs] by auto
qed

theorem removeClient_keeps_rest_witness:
  "chain (heap demo) (clients demo) [30, 20, 10] \<and> (20::nat) \<in> set [30, 20, 10] \<and>
   (\<exists>s'. removeClient (Some 20) demo = Some (Inr s') \<and>
      chain (heap s') (clients s') [30, 10] \<and> clientCount s' = 2 \<and> heap s' 20 = None)"
proof -
  have c: "chain (heap demo) (clients demo) [30, 20, 10]"
    by (simp add: demo_def demo_heap_def)
  have m: "(20::nat) \<in> set [30, 20, 10]"
    by simp
  have "clientCount demo = 3"
    by (simp add: demo_def)
  with removeClient_keeps_rest [OF c m] c m show ?thesis
    by auto
qed

text \<open>
  C5.  Eviction on disconnect.  Take a registry and a node \<open>a\<close> that is in it when
  the tick begins, and one tick, whatever \<^verbatim>\<open>accept\<close> and the allocator would answer.  The tick returns.  Its trace has
  exactly one liveness check of \<open>a\<close>: it comes right after the poll that ended the
  drain of \<open>a\<close> (\<^verbatim>\<open>available\<close> returning 0), no check of \<open>a\<close> comes before it, and
  no call on the session of \<open>a\<close> at all comes after it, so the check is not inside
  the drain and every call of the drain precedes it.  What the check reports is
  \<open>stays\<close>, the \<open>live\<close> flag of the session (\<open>stays_live\<close>).  If it reports the
  connection gone, then within this tick the node is freed, it is no longer allocated
  when the pass is over, and the chain at the end of the tick does not contain its
  address, unless the tick accepted a new connection and \<^verbatim>\<open>malloc\<close> handed this very
  address out again for the new head.  A chain only passes through allocated nodes
  (\<open>chain_allocated\<close>), so no later traversal meets the evicted node.
\<close>

theorem disconnect_eviction:
  assumes "chain (heap s) (clients s) as" and "a \<in> set as"
  shows "\<exists>s1 s' pre post cs.
           echoLoop_clients (clients s) s = Some (Inr s1) \<and>
           echoLoop newSocket m s = Some (Inr s') \<and>
           trace s' = trace s @ pre @ [Available a 0, Connected a (stays (heap s) a)] @ post \<and>
           (\<forall>e\<in>set pre. \<not> liveness_check a e) \<and>
           (\<forall>e\<in>set post. \<not> session_call a e) \<and>
           chain (heap s') (clients s') cs \<and>
           (\<not> stays (heap s) a \<longrightarrow>
              Free a \<in> set post \<and> heap s1 a = None \<and>
              (a \<in> set cs \<longrightarrow> malloc m (heap s1) = Some a \<and> clients s' = Some a))"
proof -
  let ?f = "node_events (heap s)"
  let ?bs = "filter (stays (heap s)) as"
  have d: "distinct as" using assms(1) by (rule chain_distinct)
  from assms(2) obtain xs ys where as: "as = xs @ a # ys"
    by (auto simp: in_set_conv_decomp)
  with d have nx: "a \<notin> set xs" and ny: "a \<notin> set ys" by auto
  obtain n where n: "heap s a = Some n"
    using chain_allocated [OF assms] by auto
  from pass_registry [OF assms(1)] obtain s1 where s1:
    "echoLoop_clients (clients s) s = Some (Inr s1)"
    "chain (heap s1) (clients s1) ?bs"
    "trace s1 = trace s @ concat (map ?f as)"
    "\<forall>x\<in>set as. \<not> stays (heap s) x \<longrightarrow> heap s1 x = None"
    by blast
  let ?s' = "echoLoop_accept newSocket m s1"
  have run: "echoLoop newSocket m s = Some (Inr ?s')"
    using s1(1) by (simp add: echoLoop_def)
  from accept_events [of newSocket m s1] obtain acc where acc:
    "trace ?s' = trace s1 @ acc" "\<forall>e\<in>set acc. \<not> any_session_call e"
    by blast
  from node_events_self [of "heap s" a n, OF n] obtain es tl where ev:
    "?f a = es @ [Available a 0, Connected a (stays (heap s) a)] @ tl"
    "\<forall>e\<in>set es. \<not> liveness_check a e"
    "\<forall>e\<in>set tl. \<not> any_session_call e"
    "\<not> stays (heap s) a \<longrightarrow> Free a \<in> set tl"
    by blast
  let ?pre = "concat (map ?f xs) @ es"
  let ?post = "tl @ concat (map ?f ys) @ acc"
  have tr: "trace ?s' = trace s @ ?pre @ [Available a 0, Connected a (stays (heap s) a)] @ ?post"
    by (simp add: acc(1) s1(3) as ev(1))
  have others: "\<not> session_call a e" if "a \<notin> set zs" and "e \<in> set (concat (map ?f zs))" for zs e
  proof -
    from that(2) obtain z where z: "z \<in> set zs" "e \<in> set (?f z)" by auto
    with that(1) have "z \<noteq> a" by auto
    from node_events_other [OF this, of "heap s"] z(2) show ?thesis by blast
  qed
  have p1: "\<forall>e\<in>set ?pre. \<not> liveness_check a e"
  proof
    fix e assume "e \<in> set ?pre"
    then consider "e \<in> set (concat (map ?f xs))" | "e \<in> set es" by auto
    then show "\<not> liveness_check a e"
    proof cases
      case 1
      from others [OF nx 1] show ?thesis using liveness_is_session_call by blast
    next
      case 2
      with ev(2) show ?thesis by blast
    qed
  qed
  have p2: "\<forall>e\<in>set ?post. \<not> session_call a e"
  proof
    fix e assume "e \<in> set ?post"
    then consider "e \<in> set tl" | "e \<in> set (concat (map ?f ys))" | "e \<in> set acc" by auto
    then show "\<not> session_call a e"
    proof cases
      case 1
      with ev(3) show ?thesis using session_call_any by blast
    next
      case 2
      from others [OF ny 2] show ?thesis .
    next
      case 3
      with acc(2) show ?thesis using session_call_any by blast
    qed
  qed
  have "\<exists>cs. chain (heap ?s') (clients ?s') cs \<and>
      (a \<in> set cs \<longrightarrow> a \<in> set ?bs \<or> (malloc m (heap s1) = Some a \<and> clients ?s' = Some a))"
    using accept_chain [OF s1(2), of newSocket m]
  proof
    assume "chain (heap ?s') (clients ?s') ?bs \<and> clientCount ?s' = clientCount s1"
    then show ?thesis by blast
  next
    assume "\<exists>a. malloc m (heap s1) = Some a \<and> clients ?s' = Some a \<and>
              clientCount ?s' = clientCount s1 + 1 \<and> clientCount s1 < MAX_CLIENTS \<and>
              chain (heap ?s') (clients ?s') (a # ?bs)"
    then obtain a' where a': "malloc m (heap s1) = Some a'" "clients ?s' = Some a'"
      "chain (heap ?s') (clients ?s') (a' # ?bs)"
      by blast
    have "a \<in> set (a' # ?bs) \<longrightarrow>
        a \<in> set ?bs \<or> (malloc m (heap s1) = Some a \<and> clients ?s' = Some a)"
      using a'(1,2) by auto
    with a'(3) show ?thesis by blast
  qed
  then obtain cs where cs: "chain (heap ?s') (clients ?s') cs"
    "a \<in> set cs \<longrightarrow> a \<in> set ?bs \<or> (malloc m (heap s1) = Some a \<and> clients ?s' = Some a)"
    by blast
  have p3: "\<not> stays (heap s) a \<longrightarrow>
      Free a \<in> set ?post \<and> heap s1 a = None \<and>
      (a \<in> set cs \<longrightarrow> malloc m (heap s1) = Some a \<and> clients ?s' = Some a)"
  proof
    assume ns: "\<not> stays (heap s) a"
    with ev(4) have "Free a \<in> set ?post" by simp
    moreover from ns s1(4) assms(2) have "heap s1 a = None" by blast
    moreover from ns have "a \<notin> set ?bs" by simp
    with cs(2) have "a \<in> set cs \<longrightarrow> malloc m (heap s1) = Some a \<and> clients ?s' = Some a"
      by blast
    ultimately show "Free a \<in> set ?post \<and> heap s1 a = None \<and>
      (a \<in> set cs \<longrightarrow> malloc m (heap s1) = Some a \<and> clients ?s' = Some a)"
      by blast
  qed
  show ?thesis
  proof (intro exI conjI)
    show "echoLoop_clients (clients s) s = Some (Inr s1)" by (rule s1(1))
    show "echoLoop newSocket m s = Some (Inr ?s')" by (rule run)
    show "trace ?s' = trace s @ ?pre @ [Available a 0, Connected a (stays (heap s) a)] @ ?post"
      by (rule tr)
    show "\<forall>e\<in>set ?pre. \<not> liveness_check a e" by (rule p1)
    show "\<forall>e\<in>set ?post. \<not> session_call a e" by (rule p2)
    show "chain (heap ?s') (clients ?s') cs" by (rule cs(1))
    show "\<not> stays (heap s) a \<longrightarrow>
      Free a \<in> set ?post \<and> heap s1 a = None \<and>
      (a \<in> set cs \<longrightarrow> malloc m (heap s1) = Some a \<and> clients ?s' = Some a)"
      by (rule p3)
  qed
qed

theorem disconnect_eviction_witness:
  "chain (heap demo) (clients demo) [30, 20, 10] \<and> (10::nat) \<in> set [30, 20, 10] \<and>
   \<not> stays (heap demo) 10 \<and>
   (\<exists>s1 s' pre post cs.
      echoLoop_clients (clients demo) demo = Some (Inr s1) \<and>
      echoLoop (-1) None demo = Some (Inr s') \<and>
      trace s' = trace demo @ pre @ [Available 10 0, Connected 10 False] @ post \<and>
      (\<forall>e\<in>set pre. \<not> liveness_check 10 e) \<and>
      (\<forall>e\<in>set post. \<not> session_call 10 e) \<and>
      chain (heap s') (clients s') cs \<and>
      Free 10 \<in> set post \<and> heap s1 10 = None \<and> 10 \<notin> set cs)"
proof -
  have c: "chain (heap demo) (clients demo) [30, 20, 10]"
    by (simp add: demo_def demo_heap_def)
  have m: "(10::nat) \<in> set [30, 20, 10]"
    by simp
  have ns: "\<not> stays (heap demo) 10"
    by (simp add: stays_def drained_def connected_def drain_empty demo_def demo_heap_def)
  have f: "malloc None (heap s1) \<noteq> Some 10" for s1 :: state
    by (simp add: malloc_def)
  from disconnect_eviction [OF c m, of "-1" None] ns f c m show ?thesis
    by (simp del: chain.simps)
qed

text \<open>
  C6.  When the allocator gives no storage, \<^verbatim>\<open>addNewClient\<close> returns with the store,
  the chain head, the count and the listening socket as they were; all it has done is
  the \<^verbatim>\<open>malloc\<close> call and one line on the serial console.  It returns normally: the
  function is total, unlike \<open>echoSetup\<close>, whose failures never return.
\<close>

theorem addNewClient_no_memory:
  assumes "malloc m (heap s) = None"
  shows "heap (addNewClient sock m s) = heap s \<and>
         clients (addNewClient sock m s) = clients s \<and>
         clientCount (addNewClient sock m s) = clientCount s \<and>
         listenSocket (addNewClient sock m s) = listenSocket s \<and>
         trace (addNewClient sock m s) =
           trace s @ [Malloc None,
             Serial (Println ''Error! Couldn't allocate space to store a new client.'')]"
  by (simp add: addNewClient_fail [OF assms] emit_def)

theorem addNewClient_no_memory_witness:
  "malloc None (heap demo) = None \<and>
   heap (addNewClient 4 None demo) = heap demo \<and>
   clients (addNewClient 4 None demo) = Some 30 \<and>
   clientCount (addNewClient 4 None demo) = 3"
proof -
  have h: "malloc None (heap demo) = None" by (simp add: malloc_def)
  have "clients demo = Some 30" "clientCount demo = 3" by (simp_all add: demo_def)
  with h addNewClient_no_memory [OF h, of 4] show ?thesis by simp
qed

text \<open>
  C7.  Removing what is not there: on a registry, \<^verbatim>\<open>removeClient\<close> called with
  \<^verbatim>\<open>NULL\<close>, or with a pointer to a node that is not in the chain, returns with the
  whole state as it was; the count and the chain are therefore unchanged, and nothing
  is freed.
\<close>

theorem removeClient_absent_noop:
  assumes "chain (heap s) (clients s) as"
    and "cl = None \<or> (\<exists>a. cl = Some a \<and> a \<notin> set as)"
  shows "removeClient cl s = Some (Inr s)"
proof (cases cl)
  case None
  then show ?thesis by (simp add: removeClient_def)
next
  case (Some a)
  with assms(2) have "a \<notin> set as" by simp
  with assms(1) Some show ?thesis by (simp add: removeClient_absent)
qed

theorem removeClient_absent_noop_witness:
  "chain (heap demo) (clients demo) [30, 20, 10] \<and>
   removeClient None demo = Some (Inr demo) \<and>
   removeClient (Some 40) demo = Some (Inr demo)"
proof -
  have c: "chain (heap demo) (clients demo) [30, 20, 10]"
    by (simp add: demo_def demo_heap_def)
  show ?thesis
    using c removeClient_absent_noop [OF c, of None]
      removeClient_absent_noop [OF c, of "Some 40"]
    by simp
qed

text \<open>
  C8.  Insertion at the head, and the order of traversal.  On a registry, when the
  allocation succeeds, \<^verbatim>\<open>addNewClient\<close> makes the new node the head, with the given
  socket and a session built for it, links it to the former head, and adds one to the
  count; the chain is the new node followed by the former chain.  The pass of
  \<^verbatim>\<open>echoLoop\<close> over the resulting registry returns and visits the new node first, then
  the older nodes in their former order: the most recently inserted comes first.
\<close>

theorem addNewClient_links_head:
  assumes "chain (heap s) (clients s) as" and "malloc m (heap s) = Some a"
    and "s' = addNewClient sock m s"
  shows "clients s' = Some a \<and>
         heap s' a = Some \<lparr>socket = sock, client = new_client sock, next = clients s\<rparr> \<and>
         chain (heap s') (clients s') (a # as) \<and>
         clientCount s' = clientCount s + 1 \<and>
         (\<exists>s1 pass. echoLoop_clients (clients s') s' = Some (Inr s1) \<and>
            trace s1 = trace s' @ pass \<and> visited pass = a # as)"
proof -
  have ch: "chain (heap s') (clients s') (a # as)"
    unfolding assms(3) using assms(1,2) by (rule addNewClient_chain)
  from pass_registry [OF ch] obtain s1 where s1:
    "echoLoop_clients (clients s') s' = Some (Inr s1)"
    "trace s1 = trace s' @ concat (map (node_events (heap s')) (a # as))"
    by blast
  have "\<forall>x\<in>set (a # as). heap s' x \<noteq> None"
    using chain_allocated [OF ch] by blast
  then have "visited (concat (map (node_events (heap s')) (a # as))) = a # as"
    by (rule visited_pass)
  with s1 have "\<exists>s1 pass. echoLoop_clients (clients s') s' = Some (Inr s1) \<and>
            trace s1 = trace s' @ pass \<and> visited pass = a # as"
    by blast
  moreover have "clients s' = Some a" "clientCount s' = clientCount s + 1"
    "heap s' a = Some \<lparr>socket = sock, client = new_client sock, next = clients s\<rparr>"
    by (simp_all add: assms(3) addNewClient_ok [OF assms(2)] emit_def)
  ultimately show ?thesis using ch by blast
qed

theorem addNewClient_links_head_witness:
  "chain (heap demo) (clients demo) [30, 20, 10] \<and> malloc (Some 40) (heap demo) = Some 40 \<and>
   clients (addNewClient 4 (Some 40) demo) = Some 40 \<and>
   chain (heap (addNewClient 4 (Some 40) demo)) (clients (addNewClient 4 (Some 40) demo))
     [40, 30, 20, 10] \<and>
   clientCount (addNewClient 4 (Some 40) demo) = 4 \<and>
   (\<exists>s1 pass. echoLoop_clients (clients (addNewClient 4 (Some 40) demo))
        (addNewClient 4 (Some 40) demo) = Some (Inr s1) \<and>
      trace s1 = trace (addNewClient 4 (Some 40) demo) @ pass \<and>
      visited pass = [40, 30, 20, 10])"
proof -
  have c: "chain (heap demo) (clients demo) [30, 20, 10]"
    by (simp add: demo_def demo_heap_def)
  have h: "malloc (Some 40) (heap demo) = Some 40"
    by (simp add: malloc_def demo_def demo_heap_def)
  have n: "clientCount demo = 3"
    by (simp add: demo_def)
  from addNewClient_links_head [OF c h refl, of 4] c h n show ?thesis
    by (auto simp del: chain.simps)
qed

text \<open>
  C9.  One accept per tick, after the full pass.  On a registry a tick returns, and
  its trace splits in two.  The first part, the pass, holds the liveness check of every
  connection of the registry, in chain order, and for each the poll that ended its
  drain, and holds no \<^verbatim>\<open>accept\<close> and no \<^verbatim>\<open>malloc\<close> call.  The second part, the accept
  step, holds no session call, at most one \<^verbatim>\<open>accept\<close> call and at most one \<^verbatim>\<open>malloc\<close>
  call.  The chain after the tick is the chain after the pass, or that chain with one
  new node in front.  This holds whatever \<^verbatim>\<open>accept\<close> would return.
\<close>

theorem one_accept_after_pass:
  assumes "chain (heap s) (clients s) as"
  shows "\<exists>s1 s' pass acc bs.
           echoLoop_clients (clients s) s = Some (Inr s1) \<and>
           echoLoop newSocket m s = Some (Inr s') \<and>
           trace s1 = trace s @ pass \<and>
           trace s' = trace s1 @ acc \<and>
           visited pass = as \<and>
           (\<forall>a\<in>set as. Available a 0 \<in> set pass) \<and>
           (\<forall>e\<in>set pass. \<not> accept_call e \<and> \<not> malloc_call e) \<and>
           (\<forall>e\<in>set acc. \<not> any_session_call e) \<and>
           length (filter accept_call acc) \<le> 1 \<and>
           length (filter malloc_call acc) \<le> 1 \<and>
           chain (heap s1) (clients s1) bs \<and>
           (chain (heap s') (clients s') bs \<or> (\<exists>a. chain (heap s') (clients s') (a # bs)))"
proof -
  let ?f = "node_events (heap s)"
  let ?pass = "concat (map ?f as)"
  let ?bs = "filter (stays (heap s)) as"
  from pass_registry [OF assms] obtain s1 where s1:
    "echoLoop_clients (clients s) s = Some (Inr s1)"
    "chain (heap s1) (clients s1) ?bs"
    "trace s1 = trace s @ ?pass"
    by blast
  let ?s' = "echoLoop_accept newSocket m s1"
  have run: "echoLoop newSocket m s = Some (Inr ?s')"
    using s1(1) by (simp add: echoLoop_def)
  from accept_events [of newSocket m s1] obtain acc where acc:
    "trace ?s' = trace s1 @ acc" "\<forall>e\<in>set acc. \<not> any_session_call e"
    "length (filter accept_call acc) \<le> 1" "length (filter malloc_call acc) \<le> 1"
    by blast
  have al: "\<forall>x\<in>set as. heap s x \<noteq> None"
    using chain_allocated [OF assms] by blast
  then have v: "visited ?pass = as"
    by (rule visited_pass)
  have po: "\<forall>a\<in>set as. Available a 0 \<in> set ?pass"
  proof
    fix a assume a: "a \<in> set as"
    with al obtain n where "heap s a = Some n" by auto
    then have "Available a 0 \<in> set (?f a)" by (rule node_events_polled)
    with a show "Available a 0 \<in> set ?pass" by auto
  qed
  have q: "\<forall>e\<in>set ?pass. \<not> accept_call e \<and> \<not> malloc_call e"
  proof
    fix e assume "e \<in> set ?pass"
    then obtain z where "e \<in> set (?f z)" by auto
    with node_events_quiet [of "heap s" z] show "\<not> accept_call e \<and> \<not> malloc_call e"
      by blast
  qed
  have ch: "chain (heap ?s') (clients ?s') ?bs \<or> (\<exists>a. chain (heap ?s') (clients ?s') (a # ?bs))"
    using accept_chain [OF s1(2), of newSocket m] by blast
  show ?thesis
  proof (intro exI conjI)
    show "echoLoop_clients (clients s) s = Some (Inr s1)" by (rule s1(1))
    show "echoLoop newSocket m s = Some (Inr ?s')" by (rule run)
    show "trace s1 = trace s @ ?pass" by (rule s1(3))
    show "trace ?s' = trace s1 @ acc" by (rule acc(1))
    show "visited ?pass = as" by (rule v)
    show "\<forall>a\<in>set as. Available a 0 \<in> set ?pass" by (rule po)
    show "\<forall>e\<in>set ?pass. \<not> accept_call e \<and> \<not> malloc_call e" by (rule q)
    show "\<forall>e\<in>set acc. \<not> any_session_call e" by (rule acc(2))
    show "length (filter accept_call acc) \<le> 1" by (rule acc(3))
    show "length (filter malloc_call acc) \<le> 1" by (rule acc(4))
    show "chain (heap s1) (clients s1) ?bs" by (rule s1(2))
    show "chain (heap ?s') (clients ?s') ?bs \<or> (\<exists>a. chain (heap ?s') (clients ?s') (a # ?bs))"
      by (rule ch)
  qed
qed

theorem one_accept_after_pass_witness:
  "chain (heap demo) (clients demo) [30, 20, 10] \<and>
   (\<exists>s1 s' pass acc bs.
      echoLoop_clients (clients demo) demo = Some (Inr s1) \<and>
      echoLoop 4 (Some 40) demo = Some (Inr s') \<and>
      trace s1 = trace demo @ pass \<and>
      trace s' = trace s1 @ acc \<and>
      visited pass = [30, 20, 10] \<and>
      (\<forall>a\<in>set [30, 20, 10]. Available a 0 \<in> set pass) \<and>
      (\<forall>e\<in>set pass. \<not> accept_call e \<and> \<not> malloc_call e) \<and>
      (\<forall>e\<in>set acc. \<not> any_session_call e) \<and>
      length (filter accept_call acc) \<le> 1 \<and>
      length (filter malloc_call acc) \<le> 1 \<and>
      chain (heap s1) (clients s1) bs \<and>
      (chain (heap s') (clients s') bs \<or> (\<exists>a. chain (heap s') (clients s') (a # bs))))"
proof -
  have c: "chain (heap demo) (clients demo) [30, 20, 10]"
    by (simp add: demo_def demo_heap_def)
  from one_accept_after_pass [OF c, of 4 "Some 40"] c show ?thesis
    by blast
qed

text \<open>
  C10.  \<^verbatim>\<open>addNewClient\<close> checks no capacity.  Whenever the allocation succeeds it makes
  the new node the head and adds one to the count, whatever the count was; at
  \<open>MAX_CLIENTS\<close> the count becomes larger than \<open>MAX_CLIENTS\<close>.  On the same state the
  accept step of \<^verbatim>\<open>echoLoop\<close>, which has the guard, does nothing.
\<close>

theorem addNewClient_unguarded:
  assumes "malloc m (heap s) = Some a"
  shows "clients (addNewClient sock m s) = Some a \<and>
         clientCount (addNewClient sock m s) = clientCount s + 1 \<and>
         (clientCount s = MAX_CLIENTS \<longrightarrow>
            MAX_CLIENTS < clientCount (addNewClient sock m s) \<and>
            echoLoop_accept sock m s = s)"
  by (simp add: addNewClient_ok [OF assms] emit_def echoLoop_accept_def)

theorem addNewClient_unguarded_witness:
  "malloc (Some 40) (heap demo) = Some 40 \<and> clientCount demo = MAX_CLIENTS \<and>
   clients (addNewClient 4 (Some 40) demo) = Some 40 \<and>
   clientCount (addNewClient 4 (Some 40) demo) = 4 \<and>
   echoLoop_accept 4 (Some 40) demo = demo"
proof -
  have h: "malloc (Some 40) (heap demo) = Some 40"
    by (simp add: malloc_def demo_def demo_heap_def)
  have c: "clientCount demo = MAX_CLIENTS" "clientCount demo = 3"
    by (simp_all add: demo_def MAX_CLIENTS_def)
  with h addNewClient_unguarded [OF h, of 4] show ?thesis by simp
qed

end
